theory Spec2Isabelle
  imports Main "HOL-Library.Word"
begin

section \<open>Bytes, integer conversions and memory scans\<close>

text \<open>
  A \<open>QByteArray\<close> is a list of bytes. File offsets (\<open>qint64\<close>,
  \<open>LineOffset::UnderlyingType\<close>) are modelled as unbounded integers: a file offset
  never reaches \<open>2 ^ 63\<close>. The narrowing conversions of the source
  (\<open>static_cast<int>\<close>, \<open>static_cast<LineLength::UnderlyingType>\<close>) are written out.
\<close>

type_synonym byte = char
type_synonym QByteArray = "byte list"

definition LF :: byte where
  "LF = CHR 0x0A"

definition TAB :: byte where
  "TAB = CHR 0x09"

text \<open>\<open>constexpr int IndexingBlockSize = 1 * 1024 * 1024\<close>\<close>

definition IndexingBlockSize :: int where
  "IndexingBlockSize = 1 * 1024 * 1024"

text \<open>
  Modelled from the spec: the constant \<open>TabStop\<close> is declared in a header that is not
  part of the sources; the spec fixes it: "TabStop - fixed display width of 8 columns".
\<close>

definition TabStop :: int where
  "TabStop = 8"

text \<open>\<open>static_cast<int>\<close> of a 64-bit value: the low 32 bits, read as two's complement.\<close>

definition to_int32 :: "int \<Rightarrow> int" where
  "to_int32 x = (x + 2 ^ 31) mod 2 ^ 32 - 2 ^ 31"

text \<open>
  Modelled from the spec: \<open>LineLength\<close> is "unsigned 32-bit display columns"; its
  declaration is not part of the sources. A conversion to it keeps the low 32 bits.
\<close>

definition to_uint32 :: "int \<Rightarrow> int" where
  "to_uint32 x = x mod 2 ^ 32"

text \<open>The \<open>%\<close> of C++ truncates towards zero: the remainder has the sign of the dividend.\<close>

definition cpp_rem :: "int \<Rightarrow> int \<Rightarrow> int" where
  "cpp_rem a b = sgn a * (\<bar>a\<bar> mod \<bar>b\<bar>)"

text \<open>
  \<open>block.data()\<close> points to the bytes of the block followed by the terminating
  \<open>'\0'\<close> that a \<open>QByteArray\<close> always keeps: \<open>size() + 1\<close> bytes can be read.
\<close>

definition data :: "QByteArray \<Rightarrow> byte list" where
  "data block = block @ [CHR 0x00]"

fun index_of :: "byte \<Rightarrow> byte list \<Rightarrow> nat option" where
  "index_of c [] = None"
| "index_of c (x # xs) =
     (if x = c then Some 0 else map_option Suc (index_of c xs))"

datatype scan = Found nat | NotFound | OutOfBounds

text \<open>
  \<open>std::memchr(mem + start, c, n)\<close> reads the bytes at \<open>start\<close>, \<open>start + 1\<close>, ... in
  order and stops at the first match. When no byte matches and the \<open>n\<close> bytes do not
  all lie inside the memory of the array, the scan leaves the array: the behaviour of
  the source is undefined there.
\<close>

definition memchr :: "byte list \<Rightarrow> nat \<Rightarrow> byte \<Rightarrow> nat \<Rightarrow> scan" where
  "memchr mem start c n =
     (case index_of c (take n (drop start mem)) of
        Some j \<Rightarrow> Found (start + j)
      | None \<Rightarrow> if start + n \<le> length mem then NotFound else OutOfBounds)"

section \<open>Encodings\<close>

text \<open>
  A \<open>QTextCodec*\<close> is a nullable pointer: \<open>codec option\<close>, a codec being identified
  by its name.
\<close>

type_synonym codec = string

text \<open>
  Modelled from the spec: \<open>EncodingParameters\<close> (declared outside the sources) exposes
  the line feed width, the number of bytes of a line feed in the codec, and the
  before-CR offset that \<open>getBeforeCrOffset()\<close> returns.
\<close>

record EncodingParameters =
  lineFeedWidth :: int
  beforeCrOffset :: int

section \<open>The platform\<close>

text \<open>
  The functions of other modules that the worker calls are parameters of the model:
  the streaming digest (\<open>FileDigest\<close>: \<open>digest()\<close> and \<open>hash()\<close> of all the bytes added
  since the last reset), the encoding detector, the constructor of the encoding
  parameters and the parameters of a default-constructed \<open>EncodingParameters\<close>,
  \<open>QTextCodec::codecForLocale()\<close> and \<open>calculateProgress\<close>.
\<close>

record platform =
  digest :: "byte list \<Rightarrow> 64 word"
  hash_fn :: "byte list \<Rightarrow> 64 word"
  detectEncoding :: "QByteArray \<Rightarrow> codec"
  encodingParameters :: "codec \<Rightarrow> EncodingParameters"
  defaultParameters :: EncodingParameters
  codecForLocale :: codec
  calculateProgress :: "int \<Rightarrow> int \<Rightarrow> int"

section \<open>The block parser\<close>

record IndexingState =
  encodingParams :: EncodingParameters
  pos :: int
  max_length :: int
  additional_spaces :: int
  line_end :: int
  file_size :: int
  encodingGuess :: "codec option"
  fileTextCodec :: "codec option"

text \<open>
  The lambda \<open>expandTabs\<close> of \<open>parseDataBlock\<close>. \<open>start\<close> is \<open>tab_search_start\<close> as an
  index into the block, \<open>line_size\<close> the number of bytes left to search and \<open>add\<close> the
  running \<open>state.additional_spaces\<close>. After a tab, \<open>line_size\<close> is reduced by the bytes
  before the tab only, as in the source. The result is \<open>None\<close> when a scan leaves the
  memory of the block.
\<close>

function expandTabs ::
  "EncodingParameters \<Rightarrow> int \<Rightarrow> QByteArray \<Rightarrow> int \<Rightarrow> nat \<Rightarrow> int \<Rightarrow> int \<Rightarrow> int option" where
  "expandTabs p block_beginning block state_pos start line_size add =
     (case memchr (data block) start TAB (nat line_size) of
        OutOfBounds \<Rightarrow> None
      | NotFound \<Rightarrow> Some add
      | Found next_tab \<Rightarrow>
          (let pos_within_block = to_int32 (int next_tab) - beforeCrOffset p;
               add' = to_uint32 (add + (TabStop
                        - cpp_rem (to_int32 ((block_beginning - state_pos) + pos_within_block + add)) TabStop
                        - 1));
               tab_substring_size = to_int32 (int next_tab - int start);
               line_size' = line_size - tab_substring_size
           in if line_size' > 0
              then expandTabs p block_beginning block state_pos (next_tab + 1) line_size' add'
              else Some add'))"
  by pat_completeness auto

lemma index_of_Some_less: "index_of c xs = Some j \<Longrightarrow> j < length xs"
  by (induction xs arbitrary: j) (auto split: if_splits)

lemma memchr_Found_bounds: "memchr mem start c n = Found t \<Longrightarrow> start \<le> t \<and> t < length mem"
  by (auto simp: memchr_def split: option.splits if_splits dest!: index_of_Some_less)

termination expandTabs
  by (relation "measure (\<lambda>(p, bb, block, sp, start, ls, add). length (data block) - start)")
     (auto dest!: memchr_Found_bounds)

declare expandTabs.simps [simp del]

text \<open>
  The \<open>while ( pos_within_block != -1 )\<close> loop of \<open>parseDataBlock\<close>, one call per
  iteration; \<open>lps\<close> is the \<open>FastLinePositionArray\<close> being filled. The loop does not
  end when the position stops advancing (a line feed width that does not exceed the
  before-CR offset): not returning is the value \<open>None\<close>, as is a scan outside the block.
\<close>

partial_function (option) parse_loop ::
  "int \<Rightarrow> QByteArray \<Rightarrow> IndexingState \<Rightarrow> int list \<Rightarrow> (IndexingState \<times> int list) option" where
  "parse_loop block_beginning block state lps =
     (let pos_within_block = max (to_int32 (pos state - block_beginning)) 0;
          search_line_size = int (length block) - pos_within_block
      in if search_line_size > 0 then
           (case memchr (data block) (nat pos_within_block) LF (nat search_line_size) of
              OutOfBounds \<Rightarrow> None
            | NotFound \<Rightarrow>
                map_option (\<lambda>add. (state\<lparr>additional_spaces := add\<rparr>, lps))
                  (expandTabs (encodingParams state) block_beginning block (pos state)
                     (nat pos_within_block) search_line_size (additional_spaces state))
            | Found next_line_feed \<Rightarrow>
                (case expandTabs (encodingParams state) block_beginning block (pos state)
                        (nat pos_within_block) (int next_line_feed - pos_within_block)
                        (additional_spaces state) of
                   None \<Rightarrow> None
                 | Some add \<Rightarrow>
                     (let pos_within_block' =
                            to_int32 (int next_line_feed) - beforeCrOffset (encodingParams state)
                      in if pos_within_block' \<noteq> - 1 then
                           (let end' = pos_within_block' + block_beginning;
                                length' = to_uint32 (end' - pos state + add);
                                pos' = end' + lineFeedWidth (encodingParams state)
                            in parse_loop block_beginning block
                                 (state\<lparr>line_end := end',
                                    max_length := (if length' > max_length state then length'
                                                   else max_length state),
                                    pos := pos',
                                    additional_spaces := 0\<rparr>)
                                 (lps @ [pos']))
                         else Some (state\<lparr>additional_spaces := add\<rparr>, lps))))
         else Some (state, lps))"

declare parse_loop.simps [code]

definition parseDataBlock ::
  "int \<Rightarrow> QByteArray \<Rightarrow> IndexingState \<Rightarrow> (IndexingState \<times> int list) option" where
  "parseDataBlock block_beginning block state =
     parse_loop block_beginning block (state\<lparr>max_length := 0\<rparr>) []"

section \<open>The indexing data\<close>

text \<open>
  Modelled from the spec: \<open>LinePositionArray\<close> and \<open>FastLinePositionArray\<close> are
  declared outside the sources. The spec gives a sequence of byte offsets with
  \<open>append(offset)\<close>, \<open>append_list(FastLinePositionArray)\<close> ("appending it to the main
  array is an atomic bulk extension"), \<open>size()\<close> and \<open>set_fake_final_lf()\<close>, and a
  boolean \<open>fake_final_lf\<close> that "marks that the file's last line lacked a terminator
  and a synthetic one was inserted", with the invariant
  \<open>fake_final_lf \<Longrightarrow> last_entry = file_size + 1\<close>, increasing offsets and one entry per
  line. An array whose last entry is synthetic therefore gives this entry up when it
  receives a list, and carries the flag afterwards exactly when the list carries it.
  On an array without the flag, the only case the full index meets, \<open>append_list\<close> is
  the concatenation.
\<close>

record LinePositionArray =
  array :: "int list"
  fakeFinalLF :: bool

definition empty_array :: LinePositionArray where
  "empty_array = \<lparr>array = [], fakeFinalLF = False\<rparr>"

definition append_offset :: "int \<Rightarrow> LinePositionArray \<Rightarrow> LinePositionArray" where
  "append_offset offset a = a\<lparr>array := array a @ [offset]\<rparr>"

definition setFakeFinalLF :: "LinePositionArray \<Rightarrow> LinePositionArray" where
  "setFakeFinalLF a = a\<lparr>fakeFinalLF := True\<rparr>"

definition append_list :: "LinePositionArray \<Rightarrow> LinePositionArray \<Rightarrow> LinePositionArray" where
  "append_list other a =
     \<lparr>array = (if fakeFinalLF a then butlast (array a) else array a) @ array other,
      fakeFinalLF = fakeFinalLF other\<rparr>"

text \<open>
  \<open>IndexedHash\<close>, with the fields that \<open>addAll\<close> and \<open>doCheckFileChanges\<close> use (its
  declaration is outside the sources). \<open>hash_ = {}\<close> gives \<open>empty_hash\<close>.
\<close>

record IndexedHash =
  hash_size :: int
  fullDigest :: "64 word"
  hash_value :: "64 word"
  headerBlocks :: "QByteArray list"
  headerDigest :: "64 word"
  headerSize :: int
  tailBlocks :: "(int \<times> QByteArray) list"
  tailOffset :: int
  tailSize :: int
  tailDigest :: "64 word"

definition empty_hash :: IndexedHash where
  "empty_hash = \<lparr>hash_size = 0, fullDigest = 0, hash_value = 0, headerBlocks = [],
     headerDigest = 0, headerSize = 0, tailBlocks = [], tailOffset = 0, tailSize = 0,
     tailDigest = 0\<rparr>"

text \<open>
  \<open>IndexingData\<close>. \<open>hashBuilder\<close> holds the bytes added to the streaming digest
  \<open>hashBuilder_\<close> since its last reset.
\<close>

record IndexingData =
  linePosition :: LinePositionArray
  maxLength :: int
  indexedHash :: IndexedHash
  hashBuilder :: "byte list"
  dataEncodingGuess :: "codec option"
  encodingForced :: "codec option"

definition getIndexedSize :: "IndexingData \<Rightarrow> int" where
  "getIndexedSize d = hash_size (indexedHash d)"

definition getHash :: "IndexingData \<Rightarrow> IndexedHash" where
  "getHash d = indexedHash d"

definition getMaxLength :: "IndexingData \<Rightarrow> int" where
  "getMaxLength d = maxLength d"

definition getNbLines :: "IndexingData \<Rightarrow> nat" where
  "getNbLines d = length (array (linePosition d))"

definition getEncodingGuess :: "IndexingData \<Rightarrow> codec option" where
  "getEncodingGuess d = dataEncodingGuess d"

definition setEncodingGuess :: "codec option \<Rightarrow> IndexingData \<Rightarrow> IndexingData" where
  "setEncodingGuess c d = d\<lparr>dataEncodingGuess := c\<rparr>"

definition forceEncoding :: "codec option \<Rightarrow> IndexingData \<Rightarrow> IndexingData" where
  "forceEncoding c d = d\<lparr>encodingForced := c\<rparr>"

definition getForcedEncoding :: "IndexingData \<Rightarrow> codec option" where
  "getForcedEncoding d = encodingForced d"

definition clear :: "IndexingData \<Rightarrow> IndexingData" where
  "clear d = \<lparr>linePosition = empty_array, maxLength = 0, indexedHash = empty_hash,
     hashBuilder = [], dataEncodingGuess = None, encodingForced = None\<rparr>"

definition blocks_size :: "QByteArray list \<Rightarrow> int" where
  "blocks_size bs = sum_list (map (\<lambda>b. int (length b)) bs)"

text \<open>
  The part of \<open>addAll\<close> that runs for a non-empty block. The tail loses its oldest
  block at most once (the source tests the sum with an \<open>if\<close>). \<open>tailBlocks.front()\<close> of
  an empty deque is undefined behaviour: the result is \<open>None\<close> there.
\<close>

definition add_block :: "platform \<Rightarrow> QByteArray \<Rightarrow> byte list \<Rightarrow> IndexedHash \<Rightarrow> IndexedHash option" where
  "add_block pf block builder h =
     (let h1 = h\<lparr>fullDigest := digest pf builder, hash_value := hash_fn pf builder\<rparr>;
          h2 = (if headerSize h1 < IndexingBlockSize
                then (let hb = headerBlocks h1 @ [block]
                      in h1\<lparr>headerBlocks := hb,
                            headerDigest := digest pf (concat hb),
                            headerSize := headerSize h1 + int (length block)\<rparr>)
                else h1);
          tb = tailBlocks h2 @ [(hash_size h2, block)];
          tailSize' = blocks_size (map snd tb);
          tb' = (if tailSize' > 2 * IndexingBlockSize then tl tb else tb)
      in case tb' of
           [] \<Rightarrow> None
         | front # _ \<Rightarrow>
             Some (h2\<lparr>tailBlocks := tb',
                      tailSize := blocks_size (map snd tb'),
                      tailOffset := fst front,
                      tailDigest := digest pf (concat (map snd tb')),
                      hash_size := hash_size h2 + int (length block)\<rparr>))"

definition addAll ::
  "platform \<Rightarrow> QByteArray \<Rightarrow> int \<Rightarrow> LinePositionArray \<Rightarrow> codec option \<Rightarrow> IndexingData
     \<Rightarrow> IndexingData option" where
  "addAll pf block length' linePosition' encoding d =
     (let d1 = d\<lparr>maxLength := max (maxLength d) length',
                 linePosition := append_list linePosition' (linePosition d)\<rparr>
      in if block \<noteq> [] then
           (let builder = hashBuilder d1 @ block
            in case add_block pf block builder (indexedHash d1) of
                 None \<Rightarrow> None
               | Some h \<Rightarrow>
                   Some (d1\<lparr>hashBuilder := builder, indexedHash := h,
                            dataEncodingGuess := encoding\<rparr>))
         else Some (d1\<lparr>dataEncodingGuess := encoding\<rparr>))"

section \<open>Files, read errors and the interrupt request\<close>

text \<open>
  \<open>interruptRequest_\<close> is an atomic flag that another thread sets; the worker clears
  it before an operation starts, so within one operation it goes from clear to set at
  most once. An operation reads it in a fixed order: the reader before each read (the
  checks \<open>ReaderCheck 0\<close>, \<open>ReaderCheck 1\<close>, ...), then \<open>doIndex\<close> before it adds the
  fake line feed and before it clears, then \<open>run\<close> for its result. The interrupt of
  a run is the first check that sees the flag set, \<open>None\<close> when it is never set.
\<close>

datatype checkpoint = ReaderCheck nat | FakeLfCheck | ClearCheck | ResultCheck

fun interruptRequest :: "checkpoint option \<Rightarrow> checkpoint \<Rightarrow> bool" where
  "interruptRequest None _ = False"
| "interruptRequest (Some (ReaderCheck i)) (ReaderCheck j) = (i \<le> j)"
| "interruptRequest (Some (ReaderCheck i)) _ = True"
| "interruptRequest (Some FakeLfCheck) (ReaderCheck j) = False"
| "interruptRequest (Some FakeLfCheck) _ = True"
| "interruptRequest (Some ClearCheck) ClearCheck = True"
| "interruptRequest (Some ClearCheck) ResultCheck = True"
| "interruptRequest (Some ClearCheck) _ = False"
| "interruptRequest (Some ResultCheck) ResultCheck = True"
| "interruptRequest (Some ResultCheck) _ = False"

text \<open>
  What an operation finds on disk: the bytes of the file (none when the file does not
  exist), whether it can be opened for reading, after how many successful \<open>read()\<close>
  calls a read fails (never, for \<open>None\<close>), and the interrupt of the run.
\<close>

record environment =
  content :: "byte list"
  openable :: bool
  read_error_after :: "nat option"
  interrupt :: "checkpoint option"

record QFile =
  bytes :: "byte list"
  file_pos :: nat
  reads_left :: "nat option"

definition open_file :: "environment \<Rightarrow> QFile option" where
  "open_file env =
     (if openable env
      then Some \<lparr>bytes = content env, file_pos = 0, reads_left = read_error_after env\<rparr>
      else None)"

definition atEnd :: "QFile \<Rightarrow> bool" where
  "atEnd f = (length (bytes f) \<le> file_pos f)"

definition seek :: "QFile \<Rightarrow> int \<Rightarrow> QFile" where
  "seek f p = (if p < 0 then f else f\<lparr>file_pos := nat p\<rparr>)"

text \<open>
  \<open>file.read( buffer, maxSize )\<close>: the number of bytes read, the bytes and the file
  afterwards. A negative \<open>maxSize\<close> and a read error give \<open>-1\<close>.
\<close>

definition file_read :: "QFile \<Rightarrow> int \<Rightarrow> int \<times> byte list \<times> QFile" where
  "file_read f maxSize =
     (if maxSize < 0 \<or> reads_left f = Some 0 then (- 1, [], f)
      else (let d = take (nat maxSize) (drop (file_pos f) (bytes f))
            in (int (length d), d,
                f\<lparr>file_pos := file_pos f + length d,
                  reads_left := map_option (\<lambda>n. n - 1) (reads_left f)\<rparr>)))"

section \<open>The indexing pipeline\<close>

datatype signal = indexingProgressed int | indexingFinished bool

text \<open>
  The reader of \<open>doIndex\<close>: the blocks it puts into the graph, in order. \<open>k\<close> counts
  the iterations of its loop.
\<close>

function blockReader :: "checkpoint option \<Rightarrow> nat \<Rightarrow> QFile \<Rightarrow> (int \<times> QByteArray) list" where
  "blockReader intr k f =
     (if atEnd f then []
      else if interruptRequest intr (ReaderCheck k) then []
      else (case file_read f IndexingBlockSize of
              (readBytes, d, f') \<Rightarrow>
                if readBytes < 0 then []
                else (int (file_pos f), d) # blockReader intr (Suc k) f'))"
  by pat_completeness auto
termination
  by (relation "measure (\<lambda>(intr, k, f). length (bytes f) - file_pos f)")
     (auto simp: file_read_def atEnd_def IndexingBlockSize_def Let_def split: if_splits)

declare blockReader.simps [simp del]

definition guessEncoding ::
  "platform \<Rightarrow> IndexingData \<Rightarrow> QByteArray \<Rightarrow> IndexingState \<Rightarrow> IndexingState" where
  "guessEncoding pf d block state =
     (let guess = (case encodingGuess state of
                     None \<Rightarrow> detectEncoding pf block
                   | Some g \<Rightarrow> g);
          state1 = state\<lparr>encodingGuess := Some guess\<rparr>
      in case fileTextCodec state1 of
           Some _ \<Rightarrow> state1
         | None \<Rightarrow>
             (let c = (case getForcedEncoding d of
                         Some forced \<Rightarrow> forced
                       | None \<Rightarrow> (case getEncodingGuess d of
                                    Some g \<Rightarrow> g
                                  | None \<Rightarrow> guess))
              in state1\<lparr>fileTextCodec := Some c,
                        encodingParams := encodingParameters pf c\<rparr>))"

text \<open>
  The body of the parser node of the graph, for one message. The node is serial and
  takes the messages in the reader's order.
\<close>

definition blockParser ::
  "platform \<Rightarrow> (int \<times> QByteArray) \<Rightarrow> IndexingState \<times> IndexingData \<times> signal list
     \<Rightarrow> (IndexingState \<times> IndexingData \<times> signal list) option" where
  "blockParser pf blockData sd =
     (case (blockData, sd) of
        ((block_beginning, block), (state, d, sigs)) \<Rightarrow>
          if block_beginning < 0 then Some (state, d, sigs)
          else (let state1 = guessEncoding pf d block state
                in if block \<noteq> [] then
                     (case parseDataBlock block_beginning block state1 of
                        None \<Rightarrow> None
                      | Some (state2, line_positions) \<Rightarrow>
                          (case addAll pf block (max_length state2)
                                  \<lparr>array = line_positions, fakeFinalLF = False\<rparr>
                                  (encodingGuess state2) d of
                             None \<Rightarrow> None
                           | Some d' \<Rightarrow>
                               Some (state2, d',
                                     sigs @ [indexingProgressed
                                               (if file_size state2 > 0
                                                then calculateProgress pf (pos state2) (file_size state2)
                                                else 100)])))
                   else Some (state1, setEncodingGuess (encodingGuess state1) d, sigs)))"

fun run_graph ::
  "platform \<Rightarrow> (int \<times> QByteArray) list \<Rightarrow> IndexingState \<times> IndexingData \<times> signal list
     \<Rightarrow> (IndexingState \<times> IndexingData \<times> signal list) option" where
  "run_graph pf [] sd = Some sd"
| "run_graph pf (blockData # rest) sd =
     (case blockParser pf blockData sd of
        None \<Rightarrow> None
      | Some sd' \<Rightarrow> run_graph pf rest sd')"

definition initial_state :: "IndexingData \<Rightarrow> int \<Rightarrow> int \<Rightarrow> platform \<Rightarrow> IndexingState" where
  "initial_state d initialPosition size' pf =
     \<lparr>encodingParams = defaultParameters pf,
      pos = initialPosition,
      max_length = 0,
      additional_spaces = 0,
      line_end = 0,
      file_size = size',
      encodingGuess = getEncodingGuess d,
      fileTextCodec = (case getForcedEncoding d of
                         Some forced \<Rightarrow> Some forced
                       | None \<Rightarrow> getEncodingGuess d)\<rparr>"

text \<open>The end of \<open>doIndex\<close>, once the graph has finished.\<close>

definition finish_index ::
  "platform \<Rightarrow> checkpoint option \<Rightarrow> IndexingState \<Rightarrow> IndexingData \<Rightarrow> IndexingData option" where
  "finish_index pf intr state d =
     (case (if \<not> interruptRequest intr FakeLfCheck \<and> file_size state > pos state
            then addAll pf [] 0 (setFakeFinalLF (append_offset (file_size state + 1) empty_array))
                   (encodingGuess state) d
            else Some d) of
        None \<Rightarrow> None
      | Some d1 \<Rightarrow>
          (let d2 = (if interruptRequest intr ClearCheck then clear d1 else d1)
           in Some (if getEncodingGuess d2 = None
                    then setEncodingGuess (Some (codecForLocale pf)) d2
                    else d2)))"

definition doIndex ::
  "platform \<Rightarrow> environment \<Rightarrow> int \<Rightarrow> IndexingData \<Rightarrow> (IndexingData \<times> signal list) option" where
  "doIndex pf env initialPosition d =
     (case open_file env of
        None \<Rightarrow>
          Some (setEncodingGuess (Some (codecForLocale pf)) (clear d), [indexingProgressed 100])
      | Some file \<Rightarrow>
          (let state = initial_state d initialPosition (int (length (bytes file))) pf;
               msgs = blockReader (interrupt env) 0 (seek file (pos state)) @ [(- 1, [])]
           in case run_graph pf msgs (state, d, []) of
                None \<Rightarrow> None
              | Some (state', d', sigs) \<Rightarrow>
                  map_option (\<lambda>d''. (d'', sigs)) (finish_index pf (interrupt env) state' d')))"

section \<open>The operations\<close>

text \<open>
  An operation gives the indexing data afterwards, the signals it emitted and its
  result; \<open>None\<close> when the parser does not return or leaves a block.
\<close>

definition FullIndexOperation_run ::
  "platform \<Rightarrow> environment \<Rightarrow> codec option \<Rightarrow> IndexingData
     \<Rightarrow> (IndexingData \<times> signal list \<times> bool) option" where
  "FullIndexOperation_run pf env forcedEncoding d =
     (case doIndex pf env 0 (forceEncoding forcedEncoding (clear d)) of
        None \<Rightarrow> None
      | Some (d', sigs) \<Rightarrow>
          (let result = (if interruptRequest (interrupt env) ResultCheck then False else True)
           in Some (d', [indexingProgressed 0] @ sigs @ [indexingFinished result], result)))"

definition PartialIndexOperation_run ::
  "platform \<Rightarrow> environment \<Rightarrow> IndexingData \<Rightarrow> (IndexingData \<times> signal list \<times> bool) option" where
  "PartialIndexOperation_run pf env d =
     (let initial_position = getIndexedSize d
      in case doIndex pf env initial_position d of
           None \<Rightarrow> None
         | Some (d', sigs) \<Rightarrow>
             (let result = (if interruptRequest (interrupt env) ResultCheck then False else True)
              in Some (d', [indexingProgressed 0] @ sigs @ [indexingFinished result], result)))"

datatype MonitoredFileStatus = Unchanged | DataAdded | Truncated

text \<open>
  The lambda \<open>getDigest\<close> of \<open>doCheckFileChanges\<close>: its \<open>do ... while\<close> loop, which
  gives the bytes added to the digest and the file afterwards.
\<close>

function getDigest_loop ::
  "QFile \<Rightarrow> int \<Rightarrow> int \<Rightarrow> int \<Rightarrow> byte list \<Rightarrow> byte list \<times> QFile" where
  "getDigest_loop f buffer_size indexedSize totalSize added =
     (let bytesToRead = min buffer_size (indexedSize - totalSize)
      in case file_read f bytesToRead of
           (readSize, d, f') \<Rightarrow>
             (let added' = (if readSize > 0 then added @ d else added);
                  totalSize' = (if readSize > 0 then totalSize + readSize else totalSize)
              in if readSize > 0 \<and> totalSize' < indexedSize
                 then getDigest_loop f' buffer_size indexedSize totalSize' added'
                 else (added', f')))"
  by pat_completeness auto
termination
  by (relation "measure (\<lambda>(f, bs, indexedSize, totalSize, added). nat (indexedSize - totalSize))")
     auto

declare getDigest_loop.simps [simp del]

definition getDigest :: "platform \<Rightarrow> QFile \<Rightarrow> int \<Rightarrow> 64 word \<times> QFile" where
  "getDigest pf f indexedSize =
     (case getDigest_loop f IndexingBlockSize indexedSize 0 [] of
        (added, f') \<Rightarrow> (digest pf added, f'))"

record configuration =
  fastModificationDetection :: bool
  indexReadBufferSizeMb :: int

definition doCheckFileChanges ::
  "platform \<Rightarrow> configuration \<Rightarrow> environment \<Rightarrow> IndexingData \<Rightarrow> MonitoredFileStatus" where
  "doCheckFileChanges pf config env d =
     (let indexedHash' = getHash d;
          realFileSize = int (length (content env))
      in if realFileSize = 0 \<or> realFileSize < hash_size indexedHash' then Truncated
         else (case open_file env of
                 None \<Rightarrow> Truncated
               | Some file \<Rightarrow>
                   (let isFileModified =
                          (if fastModificationDetection config
                                \<and> hash_size indexedHash' > 2 * IndexingBlockSize
                           then (case getDigest pf file (headerSize indexedHash') of
                                   (headerDigest', file1) \<Rightarrow>
                                     if headerDigest' \<noteq> headerDigest indexedHash' then True
                                     else (case getDigest pf (seek file1 (tailOffset indexedHash'))
                                                  (tailSize indexedHash') of
                                             (tailDigest', file2) \<Rightarrow>
                                               tailDigest' \<noteq> tailDigest indexedHash'))
                           else (case getDigest pf file (hash_size indexedHash') of
                                   (realHashDigest, file1) \<Rightarrow>
                                     realHashDigest \<noteq> fullDigest indexedHash'))
                    in if isFileModified then Truncated
                       else if realFileSize > hash_size indexedHash' then DataAdded
                       else Unchanged)))"

datatype check_signal = fileCheckFinished MonitoredFileStatus

definition CheckFileChangesOperation_run ::
  "platform \<Rightarrow> configuration \<Rightarrow> environment \<Rightarrow> IndexingData
     \<Rightarrow> IndexingData \<times> check_signal list \<times> MonitoredFileStatus" where
  "CheckFileChangesOperation_run pf config env d =
     (let result = doCheckFileChanges pf config env d
      in (d, [fileCheckFinished result], result))"

section \<open>A sample platform\<close>

text \<open>
  A platform for running the model on concrete files: a polynomial digest, a detector
  that always answers UTF-8, and line feeds of one byte.
\<close>

definition sample_digest :: "byte list \<Rightarrow> 64 word" where
  "sample_digest bs = fold (\<lambda>c h. h * 31 + of_nat (of_char c)) bs 0"

definition single_byte :: EncodingParameters where
  "single_byte = \<lparr>lineFeedWidth = 1, beforeCrOffset = 0\<rparr>"

definition sample_detect :: "QByteArray \<Rightarrow> codec" where
  "sample_detect block = ''UTF-8''"

definition sample_parameters :: "codec \<Rightarrow> EncodingParameters" where
  "sample_parameters c = single_byte"

definition sample_progress :: "int \<Rightarrow> int \<Rightarrow> int" where
  "sample_progress v s = (100 * v) div s"

definition sample_platform :: platform where
  "sample_platform =
     \<lparr>digest = sample_digest, hash_fn = sample_digest, detectEncoding = sample_detect,
      encodingParameters = sample_parameters, defaultParameters = single_byte,
      codecForLocale = ''System'', calculateProgress = sample_progress\<rparr>"

definition empty_data :: IndexingData where
  "empty_data = \<lparr>linePosition = empty_array, maxLength = 0, indexedHash = empty_hash,
     hashBuilder = [], dataEncodingGuess = None, encodingForced = None\<rparr>"

definition plain_file :: "byte list \<Rightarrow> environment" where
  "plain_file bs = \<lparr>content = bs, openable = True, read_error_after = None, interrupt = None\<rparr>"

text \<open>The files of the scenarios S2 and S3 of the specification.\<close>

definition file_S2 :: "byte list" where
  "file_S2 = [CHR ''a'', LF, CHR ''b'', CHR ''b'']"

definition file_S3 :: "byte list" where
  "file_S3 = [CHR ''x'', TAB, CHR ''y'', LF]"


section \<open>The specification of the change check\<close>

text \<open>
  The outcome of \<open>check_file_changes\<close> in the words of the specification, for the
  fingerprints \<open>indexed\<close> and the file \<open>current\<close>: on the fast path the digest of the
  first \<open>header_size\<close> bytes is compared with \<open>header_digest\<close> and the digest of
  \<open>tail_size\<close> bytes from \<open>tail_offset\<close> with \<open>tail_digest\<close>; otherwise the digest of
  the first \<open>indexed.size\<close> bytes is compared with \<open>full_digest\<close>.
\<close>

definition spec_digest_mismatch ::
  "platform \<Rightarrow> configuration \<Rightarrow> IndexedHash \<Rightarrow> byte list \<Rightarrow> bool" where
  "spec_digest_mismatch pf config indexed current =
     (if fastModificationDetection config \<and> hash_size indexed > 2 * IndexingBlockSize
      then digest pf (take (nat (headerSize indexed)) current) \<noteq> headerDigest indexed
         \<or> digest pf (take (nat (tailSize indexed)) (drop (nat (tailOffset indexed)) current))
              \<noteq> tailDigest indexed
      else digest pf (take (nat (hash_size indexed)) current) \<noteq> fullDigest indexed)"

definition spec_check_file_changes ::
  "platform \<Rightarrow> configuration \<Rightarrow> environment \<Rightarrow> IndexedHash \<Rightarrow> MonitoredFileStatus" where
  "spec_check_file_changes pf config env indexed =
     (if int (length (content env)) = 0
         \<or> int (length (content env)) < hash_size indexed
         \<or> \<not> openable env
         \<or> spec_digest_mismatch pf config indexed (content env)
      then Truncated
      else if int (length (content env)) > hash_size indexed then DataAdded
      else Unchanged)"

definition sample_configuration :: configuration where
  "sample_configuration = \<lparr>fastModificationDetection = True, indexReadBufferSizeMb = 1\<rparr>"

text \<open>Environments for concrete runs: a file that cannot be opened, and an interrupted run.\<close>

definition unopenable_file :: "byte list \<Rightarrow> checkpoint option \<Rightarrow> environment" where
  "unopenable_file bs intr =
     \<lparr>content = bs, openable = False, read_error_after = None, interrupt = intr\<rparr>"

definition interrupted_file :: "byte list \<Rightarrow> checkpoint \<Rightarrow> environment" where
  "interrupted_file bs c =
     \<lparr>content = bs, openable = True, read_error_after = None, interrupt = Some c\<rparr>"

text \<open>
  A sequence of \<open>addAll\<close> calls, each with its arguments; a block of the size of an
  indexing block; a call that adds a block and no line.
\<close>

fun addAll_seq ::
  "platform \<Rightarrow> (QByteArray \<times> int \<times> LinePositionArray \<times> codec option) list \<Rightarrow> IndexingData
     \<Rightarrow> IndexingData option" where
  "addAll_seq pf [] d = Some d"
| "addAll_seq pf ((block, length', linePosition', encoding) # calls) d =
     (case addAll pf block length' linePosition' encoding d of
        None \<Rightarrow> None
      | Some d' \<Rightarrow> addAll_seq pf calls d')"

definition full_block :: QByteArray where
  "full_block = replicate (nat IndexingBlockSize) (CHR ''a'')"

definition add_call :: "QByteArray \<Rightarrow> QByteArray \<times> int \<times> LinePositionArray \<times> codec option" where
  "add_call block = (block, 0, empty_array, None)"

text \<open>The header window of the fingerprints is consistent.\<close>

definition header_ok :: "IndexedHash \<Rightarrow> bool" where
  "header_ok h =
     (headerSize h = blocks_size (headerBlocks h)
      \<and> (headerBlocks h = []
          \<or> headerSize h - int (length (last (headerBlocks h))) < IndexingBlockSize))"

text \<open>The fingerprints agree with the bytes added so far.\<close>

definition digest_ok :: "platform \<Rightarrow> IndexingData \<Rightarrow> bool" where
  "digest_ok pf d =
     (getIndexedSize d = int (length (hashBuilder d))
      \<and> fullDigest (indexedHash d) = (if hashBuilder d = [] then 0 else digest pf (hashBuilder d))
      \<and> 0 \<le> maxLength d)"

text \<open>An environment in which a read fails after \<open>n\<close> successful reads.\<close>

definition failing_file :: "byte list \<Rightarrow> nat \<Rightarrow> environment" where
  "failing_file bs n =
     \<lparr>content = bs, openable = True, read_error_after = Some n, interrupt = None\<rparr>"

text \<open>
  The last line of a file lacks a terminating line feed, for given encoding parameters:
  the file is not empty and no line feed byte has its line feed end at the end of the
  file or behind it.
\<close>

definition unterminated :: "EncodingParameters \<Rightarrow> byte list \<Rightarrow> bool" where
  "unterminated p F =
     (F \<noteq> [] \<and> (\<forall>i < length F. F ! i = LF \<longrightarrow>
        int i - beforeCrOffset p + lineFeedWidth p < int (length F)))"

text \<open>The parameters a run can use.\<close>

definition platform_parameters :: "platform \<Rightarrow> EncodingParameters \<Rightarrow> bool" where
  "platform_parameters pf p = (p = defaultParameters pf \<or> (\<exists>c. p = encodingParameters pf c))"

text \<open>
  The encoding parameters a full index parses a file with (\<open>doIndex\<close> and
  \<open>guessEncoding\<close>). When an encoding is forced the state starts with a codec, so
  \<open>guessEncoding\<close> leaves the parameters as \<open>IndexingState\<close> constructed them: the
  default parameters. Otherwise the data are cleared and the parameters are those of
  the codec detected in the first block. A partial index starts with the encoding
  guess of the data as its codec and parses with the default parameters.
\<close>

definition index_parameters :: "platform \<Rightarrow> codec option \<Rightarrow> byte list \<Rightarrow> EncodingParameters" where
  "index_parameters pf forced F =
     (case forced of
        Some c \<Rightarrow> defaultParameters pf
      | None \<Rightarrow> encodingParameters pf (detectEncoding pf (take (nat IndexingBlockSize) F)))"

text \<open>
  The positions the parser can reach with the parameters \<open>p\<close>: the start of the file
  and the position behind the line feed of a line feed byte.
\<close>

definition after_line_feed :: "EncodingParameters \<Rightarrow> byte list \<Rightarrow> int \<Rightarrow> bool" where
  "after_line_feed p F x =
     (x = 0 \<or> (\<exists>i < length F. F ! i = LF \<and> x = int i - beforeCrOffset p + lineFeedWidth p))"

text \<open>
  The lines of a run of bytes read with a line feed of one byte and no tab: \<open>pos\<close> is
  the start of the current line, \<open>off\<close> the offset of the first byte and \<open>ml\<close> the
  maximal length so far. The result is the list of line positions (the offset after
  each line feed), the start of the last line and the maximal length.
\<close>

fun scan_lines :: "int \<Rightarrow> int \<Rightarrow> int \<Rightarrow> byte list \<Rightarrow> int list \<times> int \<times> int" where
  "scan_lines pos' off ml [] = ([], pos', ml)"
| "scan_lines pos' off ml (c # cs) =
     (if c = LF
      then (case scan_lines (off + 1) (off + 1) (max ml (off - pos')) cs of
              (l, p, m) \<Rightarrow> ((off + 1) # l, p, m))
      else scan_lines pos' (off + 1) ml cs)"

text \<open>
  The messages \<open>msgs\<close> are consecutive non-empty blocks, of at most one indexing block
  each, that start at the offset \<open>off\<close> and make up the bytes \<open>bs\<close>.
\<close>

fun covers :: "int \<Rightarrow> (int \<times> QByteArray) list \<Rightarrow> byte list \<Rightarrow> bool" where
  "covers off [] bs = (bs = [])"
| "covers off (m # msgs) bs =
     (fst m = off \<and> snd m \<noteq> [] \<and> int (length (snd m)) \<le> IndexingBlockSize
      \<and> snd m = take (length (snd m)) bs
      \<and> covers (off + int (length (snd m))) msgs (drop (length (snd m)) bs))"

text \<open>Every block that the state will parse is parsed with a line feed of one byte.\<close>

definition ready :: "platform \<Rightarrow> IndexingData \<Rightarrow> IndexingState \<Rightarrow> bool" where
  "ready pf d st = (\<forall>block. encodingParams (guessEncoding pf d block st) = single_byte)"

text \<open>
  No byte lies more than \<open>2 ^ 31\<close> bytes behind the start of its line: \<open>pos\<close> is the
  start of the current line and \<open>off\<close> the offset of the first byte.
\<close>

fun short_lines_from :: "int \<Rightarrow> int \<Rightarrow> byte list \<Rightarrow> bool" where
  "short_lines_from pos' off [] = True"
| "short_lines_from pos' off (c # cs) =
     (off - pos' \<le> 2 ^ 31
      \<and> (if c = LF then short_lines_from (off + 1) (off + 1) cs
          else short_lines_from pos' (off + 1) cs))"

definition short_lines :: "byte list \<Rightarrow> bool" where
  "short_lines F = short_lines_from 0 0 F"

text \<open>
  Every block of \<open>msgs\<close> starts at most \<open>2 ^ 31\<close> bytes behind the start of the line that
  is current when the block is parsed.
\<close>

fun in_reach :: "int \<Rightarrow> (int \<times> QByteArray) list \<Rightarrow> bool" where
  "in_reach pos' [] = True"
| "in_reach pos' (m # msgs) =
     (fst m - pos' \<le> 2 ^ 31 \<and> in_reach (fst (snd (scan_lines pos' (fst m) 0 (snd m)))) msgs)"

text \<open>
  The blocks of a file as the reader cuts them from the offset \<open>p\<close>: the \<open>k\<close>-th block,
  the first \<open>n\<close> blocks, and the number of blocks up to the end of the file.
\<close>

definition block_at :: "byte list \<Rightarrow> nat \<Rightarrow> nat \<Rightarrow> int \<times> QByteArray" where
  "block_at F p k =
     (int (p + k * nat IndexingBlockSize),
      take (nat IndexingBlockSize) (drop (p + k * nat IndexingBlockSize) F))"

definition blocks_from :: "byte list \<Rightarrow> nat \<Rightarrow> nat \<Rightarrow> (int \<times> QByteArray) list" where
  "blocks_from F p n = map (block_at F p) [0..<n]"

definition block_count :: "byte list \<Rightarrow> nat \<Rightarrow> nat" where
  "block_count F p = (length F - p + (nat IndexingBlockSize - 1)) div nat IndexingBlockSize"

text \<open>
  The number of blocks that the reader delivers from the offset \<open>p\<close> when it is not
  interrupted (all the blocks, or those read before the read error), and their bytes.
\<close>

definition blocks_read :: "environment \<Rightarrow> nat \<Rightarrow> nat" where
  "blocks_read env p =
     (case read_error_after env of
        None \<Rightarrow> block_count (content env) p
      | Some n \<Rightarrow> min n (block_count (content env) p))"

definition bytes_read :: "environment \<Rightarrow> nat \<Rightarrow> byte list" where
  "bytes_read env p = take (blocks_read env p * nat IndexingBlockSize) (drop p (content env))"

text \<open>A full index of the first \<open>n\<close> bytes of a file, then a partial index of the file.\<close>

definition index_prefix_then_append ::
  "platform \<Rightarrow> codec option \<Rightarrow> byte list \<Rightarrow> nat \<Rightarrow> IndexingData
     \<Rightarrow> (IndexingData \<times> signal list \<times> bool) option" where
  "index_prefix_then_append pf forced F n d =
     (case FullIndexOperation_run pf (plain_file (take n F)) forced d of
        None \<Rightarrow> None
      | Some (d1, sigs1, r1) \<Rightarrow> PartialIndexOperation_run pf (plain_file F) d1)"

definition file_two_lines :: "byte list" where
  "file_two_lines = [CHR ''a'', LF, CHR ''b'', CHR ''b'', LF]"

text \<open>
  Two tabs of the bytes are always separated by a line feed: no line has two tabs.
\<close>

definition tabs_apart :: "byte list \<Rightarrow> bool" where
  "tabs_apart F =
     (\<forall>j < length F. \<forall>i < j. F ! i = TAB \<and> F ! j = TAB \<longrightarrow> (\<exists>k < j. i < k \<and> F ! k = LF))"

text \<open>
  Modelled from the spec: the line feed width is 1, 2 or 4 and the before-CR offset is
  an offset inside the line feed.
\<close>

definition well_formed :: "EncodingParameters \<Rightarrow> bool" where
  "well_formed p =
     (lineFeedWidth p \<in> {1, 2, 4} \<and> 0 \<le> beforeCrOffset p
      \<and> beforeCrOffset p < lineFeedWidth p)"

definition well_formed_platform :: "platform \<Rightarrow> bool" where
  "well_formed_platform pf =
     (well_formed (defaultParameters pf) \<and> (\<forall>c. well_formed (encodingParameters pf c)))"


section \<open>Running the model on concrete files\<close>

lemmas conversion_defs = to_int32_def to_uint32_def cpp_rem_def TabStop_def

lemmas scan_defs = memchr_def data_def LF_def TAB_def expandTabs.simps

lemmas data_defs = clear_def forceEncoding_def getEncodingGuess_def getForcedEncoding_def
  getIndexedSize_def getHash_def setEncodingGuess_def setFakeFinalLF_def append_offset_def
  append_list_def empty_array_def empty_hash_def empty_data_def addAll_def add_block_def
  blocks_size_def

lemmas file_defs = open_file_def plain_file_def seek_def atEnd_def file_read_def
  IndexingBlockSize_def blockReader.simps

lemmas sample_defs = sample_platform_def sample_detect_def sample_parameters_def
  single_byte_def sample_progress_def

lemmas index_defs = FullIndexOperation_run_def PartialIndexOperation_run_def doIndex_def
  initial_state_def blockParser_def guessEncoding_def parseDataBlock_def parse_loop.simps
  finish_index_def


section \<open>Scans\<close>

lemma index_of_Some:
  "index_of c xs = Some j \<Longrightarrow> j < length xs \<and> xs ! j = c \<and> c \<notin> set (take j xs)"
proof (induction xs arbitrary: j)
  case Nil
  then show ?case by simp
next
  case (Cons x xs)
  show ?case
  proof (cases "x = c")
    case True
    with Cons.prems show ?thesis by simp
  next
    case False
    with Cons.prems obtain j' where j': "index_of c xs = Some j'" and j: "j = Suc j'"
      by auto
    from Cons.IH [OF j'] False j show ?thesis by simp
  qed
qed

lemma index_of_None: "index_of c xs = None \<longleftrightarrow> c \<notin> set xs"
  by (induction xs) auto

lemma memchr_Found:
  assumes "memchr mem start c n = Found k"
  shows "start \<le> k \<and> k < start + n \<and> k < length mem \<and> mem ! k = c"
proof -
  from assms obtain j where j: "index_of c (take n (drop start mem)) = Some j" and k: "k = start + j"
    by (auto simp: memchr_def split: option.splits if_splits)
  from index_of_Some [OF j] have "j < n" "j < length mem - start" "take n (drop start mem) ! j = c"
    by auto
  then show ?thesis using k by (auto simp: add.commute)
qed

lemma to_int32_small: "- (2 ^ 31) \<le> x \<Longrightarrow> x < 2 ^ 31 \<Longrightarrow> to_int32 x = x"
  by (simp add: to_int32_def)

section \<open>What the operations keep\<close>

lemma file_read_ok:
  "reads_left f = None \<Longrightarrow> 0 \<le> m \<Longrightarrow>
   file_read f m = (int (length (take (nat m) (drop (file_pos f) (bytes f)))),
                    take (nat m) (drop (file_pos f) (bytes f)),
                    f\<lparr>file_pos := file_pos f + length (take (nat m) (drop (file_pos f) (bytes f)))\<rparr>)"
  by (simp add: file_read_def Let_def)

lemma length_full_block: "length full_block = 1048576"
  by (simp only: full_block_def length_replicate IndexingBlockSize_def)

lemma full_block_not_empty: "full_block \<noteq> []"
  using length_full_block by auto

lemma blocks_size_simps:
  "blocks_size [] = 0"
  "blocks_size (b # bs) = int (length b) + blocks_size bs"
  "blocks_size (bs @ cs) = blocks_size bs + blocks_size cs"
  by (simp_all add: blocks_size_def)

lemma add_block_tail:
  assumes "tailBlocks h \<noteq> [] \<or> int (length block) \<le> 2 * IndexingBlockSize"
  shows "\<exists>h'. add_block pf block builder h = Some h'
     \<and> tailBlocks h' =
         (if blocks_size (map snd (tailBlocks h)) + int (length block) > 2 * IndexingBlockSize
          then tl (tailBlocks h @ [(hash_size h, block)])
          else tailBlocks h @ [(hash_size h, block)])
     \<and> tailBlocks h' \<noteq> []
     \<and> tailSize h' = blocks_size (map snd (tailBlocks h'))
     \<and> tailOffset h' = fst (hd (tailBlocks h'))
     \<and> hash_size h' = hash_size h + int (length block)"
proof (cases "tailBlocks h")
  case Nil
  with assms show ?thesis
    by (simp add: add_block_def blocks_size_simps Let_def)
next
  case (Cons front rest)
  then show ?thesis
    by (cases rest) (simp_all add: add_block_def blocks_size_simps Let_def)
qed


lemma add_block_size:
  "add_block pf block builder h = Some h' \<Longrightarrow>
   hash_size h' = hash_size h + int (length block) \<and> fullDigest h' = digest pf builder"
  by (auto simp: add_block_def Let_def split: list.splits if_splits)

lemma addAll_fields:
  assumes "addAll pf block length' linePosition' encoding d = Some d'"
  shows "hashBuilder d' = hashBuilder d @ block"
    and "getIndexedSize d' = getIndexedSize d + int (length block)"
    and "linePosition d' = append_list linePosition' (linePosition d)"
    and "maxLength d' = max (maxLength d) length'"
    and "dataEncodingGuess d' = encoding"
    and "encodingForced d' = encodingForced d"
    and "block \<noteq> [] \<Longrightarrow> fullDigest (indexedHash d') = digest pf (hashBuilder d @ block)"
    and "block = [] \<Longrightarrow> indexedHash d' = indexedHash d"
  using assms
  by (auto simp: addAll_def getIndexedSize_def Let_def split: option.splits if_splits
      dest: add_block_size)

lemma digest_ok_clear: "digest_ok pf (forceEncoding forced (clear d))"
  by (simp add: digest_ok_def data_defs)

lemma addAll_digest_ok:
  assumes "addAll pf block length' linePosition' encoding d = Some d'" and "digest_ok pf d"
  shows "digest_ok pf d'"
proof (cases "block = []")
  case True
  with addAll_fields [OF assms(1)] assms(2) show ?thesis
    by (simp add: digest_ok_def getIndexedSize_def le_max_iff_disj)
next
  case False
  with addAll_fields [OF assms(1)] assms(2) show ?thesis
    by (simp add: digest_ok_def le_max_iff_disj)
qed

lemma parse_loop_static:
  assumes "parse_loop block_beginning block state lps = Some res"
  shows "file_size (fst res) = file_size state
       \<and> encodingParams (fst res) = encodingParams state
       \<and> encodingGuess (fst res) = encodingGuess state
       \<and> fileTextCodec (fst res) = fileTextCodec state
       \<and> (\<exists>new. snd res = lps @ new)"
proof (rule parse_loop.raw_induct [where P = "\<lambda>bb b st l res.
       file_size (fst res) = file_size st
       \<and> encodingParams (fst res) = encodingParams st
       \<and> encodingGuess (fst res) = encodingGuess st
       \<and> fileTextCodec (fst res) = fileTextCodec st
       \<and> (\<exists>new. snd res = l @ new)", OF _ assms], goal_cases)
  case (1 loop bb b st l res)
  show ?case
    using 1(2)
    by (auto simp: Let_def split: if_splits scan.splits option.splits dest!: 1(1))
qed

lemma blockParser_keeps:
  assumes "blockParser pf (block_beginning, block) (state, d, sigs) = Some (state', d', sigs')"
    and "block_beginning < 0 \<longrightarrow> block = []"
  shows "hashBuilder d' = hashBuilder d @ block"
    and "\<not> fakeFinalLF (linePosition d) \<Longrightarrow>
           \<exists>extra. array (linePosition d') = array (linePosition d) @ extra"
    and "\<not> fakeFinalLF (linePosition d) \<Longrightarrow> \<not> fakeFinalLF (linePosition d')"
    and "encodingForced d' = encodingForced d"
    and "digest_ok pf d \<Longrightarrow> digest_ok pf d'"
    and "file_size state' = file_size state"
proof -
  show "hashBuilder d' = hashBuilder d @ block"
    using assms
    by (auto simp: blockParser_def setEncodingGuess_def Let_def
        split: if_splits option.splits prod.splits dest: addAll_fields(1))
  show "\<exists>extra. array (linePosition d') = array (linePosition d) @ extra"
    if "\<not> fakeFinalLF (linePosition d)"
    using assms that
    by (auto simp: blockParser_def setEncodingGuess_def append_list_def Let_def
        split: if_splits option.splits prod.splits dest!: addAll_fields(3))
  show "\<not> fakeFinalLF (linePosition d')" if "\<not> fakeFinalLF (linePosition d)"
    using assms that
    by (auto simp: blockParser_def setEncodingGuess_def append_list_def Let_def
        split: if_splits option.splits prod.splits dest!: addAll_fields(3))
  show "encodingForced d' = encodingForced d"
    using assms
    by (auto simp: blockParser_def setEncodingGuess_def Let_def
        split: if_splits option.splits prod.splits dest!: addAll_fields(6))
  show "digest_ok pf d'" if "digest_ok pf d"
    using assms that
    by (auto simp: blockParser_def setEncodingGuess_def digest_ok_def getIndexedSize_def Let_def
        split: if_splits option.splits prod.splits dest: addAll_digest_ok)
  show "file_size state' = file_size state"
    using assms
    by (auto simp: blockParser_def guessEncoding_def parseDataBlock_def Let_def
        split: if_splits option.splits prod.splits dest!: parse_loop_static)
qed

lemma run_graph_keeps:
  assumes "run_graph pf msgs (state, d, sigs) = Some (state', d', sigs')"
    and "\<forall>m \<in> set msgs. fst m < 0 \<longrightarrow> snd m = []"
  shows "hashBuilder d' = hashBuilder d @ concat (map snd msgs)
       \<and> (\<not> fakeFinalLF (linePosition d) \<longrightarrow>
            (\<exists>extra. array (linePosition d') = array (linePosition d) @ extra)
            \<and> \<not> fakeFinalLF (linePosition d'))
       \<and> encodingForced d' = encodingForced d
       \<and> (digest_ok pf d \<longrightarrow> digest_ok pf d')
       \<and> file_size state' = file_size state"
  using assms
proof (induction msgs arbitrary: state d sigs)
  case Nil
  then show ?case by simp
next
  case (Cons m msgs)
  obtain bb block where m: "m = (bb, block)" by (cases m) auto
  from Cons.prems(1) obtain st1 d1 sg1 where
    step: "blockParser pf (bb, block) (state, d, sigs) = Some (st1, d1, sg1)"
    and rest: "run_graph pf msgs (st1, d1, sg1) = Some (state', d', sigs')"
    by (auto simp: m split: option.splits)
  have neg: "bb < 0 \<longrightarrow> block = []" using Cons.prems(2) m by simp
  note k = blockParser_keeps [OF step neg]
  from Cons.prems(2) have "\<forall>m \<in> set msgs. fst m < 0 \<longrightarrow> snd m = []" by simp
  from Cons.IH [OF rest this] k show ?case
    by (auto simp: m)
qed

lemma finish_index_keeps:
  assumes "finish_index pf intr state d = Some d'"
    and "\<not> interruptRequest intr ClearCheck"
  shows "hashBuilder d' = hashBuilder d"
    and "indexedHash d' = indexedHash d"
    and "encodingForced d' = encodingForced d"
    and "0 \<le> maxLength d \<Longrightarrow> maxLength d' = maxLength d"
    and "linePosition d' =
           (if \<not> interruptRequest intr FakeLfCheck \<and> file_size state > pos state
            then \<lparr>array = (if fakeFinalLF (linePosition d) then butlast (array (linePosition d))
                           else array (linePosition d)) @ [file_size state + 1],
                  fakeFinalLF = True\<rparr>
            else linePosition d)"
  using assms
  by (auto simp: finish_index_def addAll_def setFakeFinalLF_def append_offset_def
      empty_array_def append_list_def setEncodingGuess_def getEncodingGuess_def Let_def
      split: option.splits if_splits)

lemma blockReader_messages:
  "m \<in> set (blockReader intr k f) \<Longrightarrow>
   0 \<le> fst m \<and> nat (fst m) < length (bytes f) \<and> file_pos f \<le> nat (fst m)
   \<and> snd m = take (nat IndexingBlockSize) (drop (nat (fst m)) (bytes f)) \<and> snd m \<noteq> []"
proof (induction intr k f rule: blockReader.induct)
  case (1 intr k f)
  show ?case
  proof (cases "atEnd f \<or> interruptRequest intr (ReaderCheck k)
                \<or> reads_left f = Some 0")
    case True
    with "1.prems" show ?thesis
      by (subst (asm) blockReader.simps)
         (auto simp: file_read_def IndexingBlockSize_def split: if_splits)
  next
    case False
    define b where "b = take (nat IndexingBlockSize) (drop (file_pos f) (bytes f))"
    define f' where "f' = f\<lparr>file_pos := file_pos f + length b,
                             reads_left := map_option (\<lambda>n. n - 1) (reads_left f)\<rparr>"
    have rd: "file_read f IndexingBlockSize = (int (length b), b, f')"
      using False by (simp add: file_read_def b_def f'_def IndexingBlockSize_def Let_def)
    have ne: "b \<noteq> []"
      using False by (simp add: b_def atEnd_def IndexingBlockSize_def)
    have unfold: "blockReader intr k f = (int (file_pos f), b) # blockReader intr (Suc k) f'"
      using False by (subst blockReader.simps) (simp add: rd)
    from "1.prems" unfold consider "m = (int (file_pos f), b)" | "m \<in> set (blockReader intr (Suc k) f')"
      by auto
    then show ?thesis
    proof cases
      case 1
      with ne False show ?thesis by (simp add: b_def atEnd_def)
    next
      case 2
      have "0 \<le> fst m \<and> nat (fst m) < length (bytes f') \<and> file_pos f' \<le> nat (fst m)
        \<and> snd m = take (nat IndexingBlockSize) (drop (nat (fst m)) (bytes f')) \<and> snd m \<noteq> []"
        using False rd 2 by (intro "1.IH" [of "int (length b)" "(b, f')" b f']) auto
      then show ?thesis by (auto simp: f'_def)
    qed
  qed
qed

lemma blockReader_error:
  "blockReader intr k (f\<lparr>reads_left := Some n\<rparr>)
     = take n (blockReader intr k (f\<lparr>reads_left := None\<rparr>))"
proof (induction n arbitrary: k f)
  case 0
  show ?case
    by (subst blockReader.simps) (simp add: file_read_def atEnd_def IndexingBlockSize_def)
next
  case (Suc n)
  define b where "b = take (nat IndexingBlockSize) (drop (file_pos f) (bytes f))"
  define g where "g = f\<lparr>file_pos := file_pos f + length b\<rparr>"
  have l: "blockReader intr k (f\<lparr>reads_left := Some (Suc n)\<rparr>) =
     (if atEnd f \<or> interruptRequest intr (ReaderCheck k) then []
      else (int (file_pos f), b) # blockReader intr (Suc k) (g\<lparr>reads_left := Some n\<rparr>))"
    by (subst blockReader.simps)
       (simp add: file_read_def atEnd_def b_def g_def IndexingBlockSize_def Let_def)
  have r: "blockReader intr k (f\<lparr>reads_left := None\<rparr>) =
     (if atEnd f \<or> interruptRequest intr (ReaderCheck k) then []
      else (int (file_pos f), b) # blockReader intr (Suc k) (g\<lparr>reads_left := None\<rparr>))"
    by (subst blockReader.simps)
       (simp add: file_read_def atEnd_def b_def g_def IndexingBlockSize_def Let_def)
  show ?case unfolding l r using Suc.IH [of "Suc k" g] by simp
qed

lemma doIndex_opened:
  assumes "open_file env = Some f" and "doIndex pf env p d = Some (d', sigs)"
  shows "\<exists>state dg.
           run_graph pf (blockReader (interrupt env) 0 (seek f p) @ [(- 1, [])])
             (initial_state d p (int (length (bytes f))) pf, d, []) = Some (state, dg, sigs)
         \<and> finish_index pf (interrupt env) state dg = Some d'"
  using assms
  by (auto simp: doIndex_def initial_state_def Let_def split: option.splits prod.splits)

lemma reader_messages_payload:
  "\<forall>m \<in> set (blockReader intr k f @ [(- 1, [])]). fst m < 0 \<longrightarrow> snd m = []"
  by (auto dest: blockReader_messages)

lemma open_file_fields:
  "open_file env = Some f \<Longrightarrow>
   bytes f = content env \<and> file_pos f = 0 \<and> reads_left f = read_error_after env"
  by (auto simp: open_file_def split: if_splits)

lemma FullIndexOperation_run_Some:
  assumes "FullIndexOperation_run pf env forced d = Some (d', sigs, r)"
  shows "\<exists>sg. doIndex pf env 0 (forceEncoding forced (clear d)) = Some (d', sg)
     \<and> r = (\<not> interruptRequest (interrupt env) ResultCheck)
     \<and> sigs = [indexingProgressed 0] @ sg @ [indexingFinished r]"
  using assms
  by (cases "interruptRequest (interrupt env) ResultCheck")
     (auto simp: FullIndexOperation_run_def Let_def split: option.splits prod.splits)

lemma PartialIndexOperation_run_Some:
  assumes "PartialIndexOperation_run pf env d = Some (d', sigs, r)"
  shows "\<exists>sg. doIndex pf env (getIndexedSize d) d = Some (d', sg)
     \<and> r = (\<not> interruptRequest (interrupt env) ResultCheck)
     \<and> sigs = [indexingProgressed 0] @ sg @ [indexingFinished r]"
  using assms
  by (cases "interruptRequest (interrupt env) ResultCheck")
     (auto simp: PartialIndexOperation_run_def Let_def split: option.splits prod.splits)

lemma to_uint32_small: "0 \<le> x \<Longrightarrow> x < 2 ^ 32 \<Longrightarrow> to_uint32 x = x"
  by (simp add: to_uint32_def)


lemma expandTabs_no_tab:
  assumes "TAB \<notin> set block" and "start + nat line_size \<le> length block + 1"
  shows "expandTabs p block_beginning block state_pos start line_size add = Some add"
proof -
  have "TAB \<notin> set (take (nat line_size) (drop start (data block)))"
    using assms(1) by (auto simp: data_def TAB_def dest!: in_set_takeD in_set_dropD)
  then have "index_of TAB (take (nat line_size) (drop start (data block))) = None"
    by (simp add: index_of_None)
  then have "memchr (data block) start TAB (nat line_size) = NotFound"
    using assms(2) by (simp add: memchr_def data_def)
  then show ?thesis by (subst expandTabs.simps) simp
qed


lemma memchr_line_feed:
  assumes "start \<le> length block"
  shows "memchr (data block) start LF (length block - start) =
     (case index_of LF (drop start block) of
        Some j \<Rightarrow> Found (start + j)
      | None \<Rightarrow> NotFound)"
proof -
  have "take (length block - start) (drop start (data block)) = drop start block"
    using assms by (simp add: data_def)
  then show ?thesis
    using assms by (simp add: memchr_def data_def split: option.splits)
qed


lemma addAll_Some:
  assumes "block = [] \<or> tailBlocks (indexedHash d) \<noteq> [] \<or> int (length block) \<le> 2 * IndexingBlockSize"
  shows "\<exists>d'. addAll pf block length' linePosition' encoding d = Some d'"
proof (cases "block = []")
  case True
  then show ?thesis by (simp add: addAll_def)
next
  case False
  with assms have "tailBlocks (indexedHash d) \<noteq> [] \<or> int (length block) \<le> 2 * IndexingBlockSize"
    by simp
  from add_block_tail [OF this, of pf "hashBuilder d @ block"] False show ?thesis
    by (auto simp: addAll_def Let_def)
qed


lemma finish_index_Some: "\<exists>d'. finish_index pf intr st d = Some d'"
  by (simp add: finish_index_def addAll_def Let_def)


lemma guessEncoding_parameters:
  "platform_parameters pf (encodingParams state) \<Longrightarrow>
   platform_parameters pf (encodingParams (guessEncoding pf d block state))"
  by (auto simp: guessEncoding_def platform_parameters_def Let_def split: option.splits)


lemma guessEncoding_pos:
  "pos (guessEncoding pf d block state) = pos state"
  by (simp add: guessEncoding_def Let_def split: option.splits)


lemma index_of_take_None:
  "index_of c (take n (drop s xs)) = None \<longleftrightarrow> (\<forall>i. s \<le> i \<and> i < s + n \<and> i < length xs \<longrightarrow> xs ! i \<noteq> c)"
proof -
  have "c \<notin> set (take n (drop s xs)) \<longleftrightarrow> (\<forall>i. s \<le> i \<and> i < s + n \<and> i < length xs \<longrightarrow> xs ! i \<noteq> c)"
  proof
    assume a: "c \<notin> set (take n (drop s xs))"
    show "\<forall>i. s \<le> i \<and> i < s + n \<and> i < length xs \<longrightarrow> xs ! i \<noteq> c"
    proof (intro allI impI)
      fix i assume i: "s \<le> i \<and> i < s + n \<and> i < length xs"
      then have "i - s < length (take n (drop s xs))" by auto
      then have "take n (drop s xs) ! (i - s) \<in> set (take n (drop s xs))" by (rule nth_mem)
      moreover have "take n (drop s xs) ! (i - s) = xs ! i"
      proof -
        from i have a: "i - s < n" and b: "s \<le> length xs" and c: "s + (i - s) = i" by auto
        have "take n (drop s xs) ! (i - s) = drop s xs ! (i - s)" using a by (rule nth_take)
        also have "\<dots> = xs ! (s + (i - s))" using b by (rule nth_drop)
        finally show ?thesis by (simp only: c)
      qed
      ultimately show "xs ! i \<noteq> c" using a by auto
    qed
  next
    assume a: "\<forall>i. s \<le> i \<and> i < s + n \<and> i < length xs \<longrightarrow> xs ! i \<noteq> c"
    show "c \<notin> set (take n (drop s xs))"
    proof
      assume "c \<in> set (take n (drop s xs))"
      then obtain k where k: "k < length (take n (drop s xs))" "take n (drop s xs) ! k = c"
        by (auto simp: in_set_conv_nth)
      then have "xs ! (s + k) = c" "s + k < s + n" "s + k < length xs" by auto
      with a show False by (metis le_add1)
    qed
  qed
  then show ?thesis by (simp add: index_of_None)
qed

lemma expandTabs_one_tab:
  assumes "start + n \<le> length block" and "int (length block) \<le> IndexingBlockSize"
    and one: "\<forall>i j. start \<le> i \<and> i < j \<and> j < start + n \<and> block ! i = TAB \<longrightarrow> block ! j \<noteq> TAB"
    and nxt: "data block ! (start + n) \<noteq> TAB"
  shows "\<exists>a. expandTabs p bb block sp start (int n) add = Some a"
proof (cases "index_of TAB (take n (drop start (data block)))")
  case None
  then have "memchr (data block) start TAB (nat (int n)) = NotFound"
    using assms(1) by (simp add: memchr_def data_def)
  then show ?thesis by (subst expandTabs.simps) simp
next
  case (Some j)
  note js = index_of_Some [OF Some]
  define t where "t = start + j"
  have j: "j < n" and t_len: "t < length block" using js assms(1) by (auto simp: t_def)
  have "take n (drop start (data block)) ! j = drop start (data block) ! j"
    using j by (rule nth_take)
  also have "\<dots> = data block ! (start + j)"
    using assms(1) by (intro nth_drop) (simp add: data_def)
  finally have "take n (drop start (data block)) ! j = data block ! (start + j)" .
  with js have "data block ! t = TAB" by (simp add: t_def)
  then have tab: "block ! t = TAB"
    using t_len by (simp add: data_def nth_append)
  have found: "memchr (data block) start TAB (nat (int n)) = Found t"
    using Some by (simp add: memchr_def t_def)
  have cast: "to_int32 (int t - int start) = int j"
    using j assms(1,2) by (simp add: t_def to_int32_small IndexingBlockSize_def)
  have none: "index_of TAB (take (n - j) (drop (t + 1) (data block))) = None"
    unfolding index_of_take_None
  proof (intro allI impI)
    fix i assume i: "t + 1 \<le> i \<and> i < t + 1 + (n - j) \<and> i < length (data block)"
    show "data block ! i \<noteq> TAB"
    proof (cases "i < start + n")
      case True
      have "start \<le> t \<and> t < i \<and> i < start + n \<and> block ! t = TAB"
        using True i tab by (simp add: t_def)
      with one have "block ! i \<noteq> TAB" by blast
      moreover have "i < length block" using True assms(1) by simp
      ultimately show ?thesis by (simp add: data_def nth_append)
    next
      case False
      with i j have "i = start + n" by (simp add: t_def)
      with nxt show ?thesis by simp
    qed
  qed
  have inb: "t + 1 + (n - j) \<le> length (data block)"
    using j assms(1) by (simp add: t_def data_def)
  have rest: "memchr (data block) (t + 1) TAB (n - j) = NotFound"
    using none inb by (simp add: memchr_def)
  have rec: "\<exists>a. expandTabs p bb block sp (t + 1) (int n - int j) add' = Some a" for add'
    using rest j by (subst expandTabs.simps) (simp add: nat_diff_distrib')
  show ?thesis
    apply (subst expandTabs.simps)
    apply (simp only: found scan.case Let_def cast)
    using j rec apply (simp add: Suc_eq_plus1 del: One_nat_def)
    done
qed

section \<open>The operations return on files with at most one tab in a line\<close>

lemma well_formed_step:
  "well_formed p \<Longrightarrow> 0 < lineFeedWidth p - beforeCrOffset p \<and> lineFeedWidth p - beforeCrOffset p \<le> 4"
  by (auto simp: well_formed_def)

lemma tabs_apart_free: "TAB \<notin> set F \<Longrightarrow> tabs_apart F"
  unfolding tabs_apart_def by (metis nth_mem)

lemma tabs_apart_sublist:
  assumes "tabs_apart F"
  shows "tabs_apart (take n (drop s F))"
  unfolding tabs_apart_def
proof (intro allI impI)
  fix j i
  assume j: "j < length (take n (drop s F))" and i: "i < j"
    and tabs: "take n (drop s F) ! i = TAB \<and> take n (drop s F) ! j = TAB"
  have nth: "take n (drop s F) ! k = F ! (s + k)" if "k \<le> j" for k
  proof -
    from that j have a: "k < n" and b: "s \<le> length F" by auto
    have "take n (drop s F) ! k = drop s F ! k" using a by (rule nth_take)
    also have "\<dots> = F ! (s + k)" using b by (rule nth_drop)
    finally show ?thesis .
  qed
  from j have sj: "s + j < length F" by auto
  from tabs i have "F ! (s + i) = TAB \<and> F ! (s + j) = TAB" by (simp add: nth)
  with assms sj i obtain k where k: "k < s + j" "s + i < k" "F ! k = LF"
    unfolding tabs_apart_def by (metis add_less_cancel_left)
  define k' where "k' = k - s"
  have "k' < j" "i < k'" "s + k' = k" using k by (auto simp: k'_def)
  moreover from this have "take n (drop s F) ! k' = LF" using k(3) nth [of k'] by simp
  ultimately show "\<exists>k<j. i < k \<and> take n (drop s F) ! k = LF" by blast
qed

lemma tabs_apart_region:
  assumes "tabs_apart block" and "LF \<notin> set (take n (drop start block))"
    and "start + n \<le> length block"
  shows "\<forall>i j. start \<le> i \<and> i < j \<and> j < start + n \<and> block ! i = TAB \<longrightarrow> block ! j \<noteq> TAB"
proof (intro allI impI notI)
  fix i j
  assume a: "start \<le> i \<and> i < j \<and> j < start + n \<and> block ! i = TAB" and b: "block ! j = TAB"
  from a assms(3) have "j < length block" by simp
  with assms(1) a b obtain k where k: "k < j" "i < k" "block ! k = LF"
    unfolding tabs_apart_def by blast
  have "index_of LF (take n (drop start block)) = None"
    using assms(2) by (simp add: index_of_None)
  then have "block ! k \<noteq> LF"
    unfolding index_of_take_None using k a assms(3) by auto
  with k show False by simp
qed

lemma parse_loop_defined:
  assumes "tabs_apart block" and "well_formed (encodingParams st)"
    and "int (length block) \<le> IndexingBlockSize"
  shows "\<exists>res. parse_loop bb block st lps = Some res"
  using assms
proof (induction "length block - nat (max (to_int32 (pos st - bb)) 0)" arbitrary: st lps
       rule: less_induct)
  case less
  define pwb where "pwb = nat (max (to_int32 (pos st - bb)) 0)"
  have pwb_int: "max (to_int32 (pos st - bb)) 0 = int pwb" by (simp add: pwb_def)
  note wf = well_formed_step [OF less.prems(2)]
  show ?case
  proof (cases "pwb < length block")
    case False
    then have "\<not> 0 < int (length block) - int pwb" by simp
    then show ?thesis
      apply (subst parse_loop.simps)
      apply (simp only: pwb_int Let_def if_False)
      apply simp
      done
  next
    case True
    then have pos: "0 < int (length block) - int pwb" by simp
    have m: "memchr (data block) pwb LF (nat (int (length block) - int pwb)) =
       (case index_of LF (drop pwb block) of Some j \<Rightarrow> Found (pwb + j) | None \<Rightarrow> NotFound)"
      using memchr_line_feed [of pwb block] True by (simp add: nat_diff_distrib')
    show ?thesis
    proof (cases "index_of LF (drop pwb block)")
      case None
      define n where "n = length block - pwb"
      have n: "int (length block) - int pwb = int n" using True by (simp add: n_def)
      have free: "LF \<notin> set (take n (drop pwb block))"
        using None by (simp add: index_of_None n_def)
      have fit: "pwb + n \<le> length block" using True by (simp add: n_def)
      have nxt: "data block ! (pwb + n) \<noteq> TAB"
        using True by (simp add: n_def data_def TAB_def)
      from expandTabs_one_tab [OF fit less.prems(3) tabs_apart_region [OF less.prems(1) free fit] nxt]
      obtain a where t: "expandTabs (encodingParams st) bb block (pos st) pwb
                 (int (length block) - int pwb) (additional_spaces st) = Some a"
        unfolding n by blast
      show ?thesis
        apply (subst parse_loop.simps)
        apply (simp only: pwb_int Let_def nat_int pos if_True m None option.case scan.case t)
        apply simp
        done
    next
      case (Some j)
      note js = index_of_Some [OF Some]
      from js have j: "pwb + j < length block" by auto
      have n: "int (pwb + j) - int pwb = int j" by simp
      have free: "LF \<notin> set (take j (drop pwb block))" using js by simp
      have fit: "pwb + j \<le> length block" using j by simp
      have "block ! (pwb + j) = LF" using js j by (simp add: add.commute)
      then have nxt: "data block ! (pwb + j) \<noteq> TAB"
        using j by (simp add: data_def nth_append TAB_def LF_def)
      from expandTabs_one_tab [OF fit less.prems(3) tabs_apart_region [OF less.prems(1) free fit] nxt]
      obtain a where t: "expandTabs (encodingParams st) bb block (pos st) pwb
                 (int (pwb + j) - int pwb) (additional_spaces st) = Some a"
        unfolding n by blast
      have k32: "to_int32 (int (pwb + j)) = int (pwb + j)"
        using j less.prems(3) by (intro to_int32_small) (auto simp: IndexingBlockSize_def)
      have IH: "\<exists>res. parse_loop bb block st' lps' = Some res"
        if diff: "pos st' - bb = int (pwb + j)
            + (lineFeedWidth (encodingParams st) - beforeCrOffset (encodingParams st))"
          and same: "encodingParams st' = encodingParams st" for st' lps'
      proof -
        have next_pwb: "to_int32 (pos st' - bb) = int (pwb + j)
            + (lineFeedWidth (encodingParams st) - beforeCrOffset (encodingParams st))"
          unfolding diff using j less.prems(3) wf
          by (intro to_int32_small) (auto simp: IndexingBlockSize_def)
        have smaller: "length block - nat (max (to_int32 (pos st' - bb)) 0)
            < length block - nat (max (to_int32 (pos st - bb)) 0)"
          using j wf unfolding next_pwb pwb_def [symmetric] by (simp add: max_def) linarith
        have wf': "well_formed (encodingParams st')" using less.prems(2) same by simp
        from less.hyps [OF smaller less.prems(1) wf' less.prems(3)] show ?thesis .
      qed
      show ?thesis
      proof (cases "int (pwb + j) - beforeCrOffset (encodingParams st) = - 1")
        case True
        show ?thesis
          apply (subst parse_loop.simps)
          apply (simp only: pwb_int Let_def nat_int pos if_True m Some option.case scan.case t k32
                  True simp_thms if_False)
          apply simp
          done
      next
        case False
        show ?thesis
          apply (subst parse_loop.simps)
          apply (simp only: pwb_int Let_def nat_int pos if_True m Some option.case scan.case t k32
                  False simp_thms if_True)
          apply (rule IH)
           apply simp_all
          done
      qed
    qed
  qed
qed

lemma platform_parameters_well_formed:
  "well_formed_platform pf \<Longrightarrow> platform_parameters pf p \<Longrightarrow> well_formed p"
  by (auto simp: well_formed_platform_def platform_parameters_def)

lemma blockParser_defined:
  assumes "well_formed_platform pf" and "platform_parameters pf (encodingParams st)"
    and "tabs_apart (snd m)" and "int (length (snd m)) \<le> IndexingBlockSize"
  shows "\<exists>st' d' sg'. blockParser pf m (st, d, sigs) = Some (st', d', sg')
           \<and> platform_parameters pf (encodingParams st')"
proof -
  obtain bb block where m: "m = (bb, block)" by (cases m) auto
  define st1 where "st1 = guessEncoding pf d block st"
  have par1: "platform_parameters pf (encodingParams st1)"
    unfolding st1_def using assms(2) by (rule guessEncoding_parameters)
  show ?thesis
  proof (cases "bb < 0 \<or> block = []")
    case True
    with assms(2) par1 show ?thesis
      by (auto simp: blockParser_def m st1_def Let_def)
  next
    case False
    have wf: "well_formed (encodingParams (st1\<lparr>max_length := 0\<rparr>))"
      using platform_parameters_well_formed [OF assms(1) par1] by simp
    from parse_loop_defined [OF _ wf, of block bb "[]"] assms(3,4)
    obtain st2 lps where parse: "parseDataBlock bb block st1 = Some (st2, lps)"
      by (auto simp: parseDataBlock_def m)
    have "block = [] \<or> tailBlocks (indexedHash d) \<noteq> []
        \<or> int (length block) \<le> 2 * IndexingBlockSize"
      using assms(4) by (simp add: m IndexingBlockSize_def)
    from addAll_Some [OF this] obtain d' where
      add: "addAll pf block (max_length st2) \<lparr>array = lps, fakeFinalLF = False\<rparr>
              (encodingGuess st2) d = Some d'"
      by blast
    from parse have "parse_loop bb block (st1\<lparr>max_length := 0\<rparr>) [] = Some (st2, lps)"
      by (simp add: parseDataBlock_def)
    from parse_loop_static [OF this] par1
    have par2: "platform_parameters pf (encodingParams st2)" by simp
    show ?thesis
      using False parse add par2
      by (simp add: blockParser_def m st1_def [symmetric] Let_def)
  qed
qed

lemma run_graph_defined:
  assumes "well_formed_platform pf" and "platform_parameters pf (encodingParams st)"
    and "\<forall>m \<in> set msgs. tabs_apart (snd m) \<and> int (length (snd m)) \<le> IndexingBlockSize"
  shows "\<exists>res. run_graph pf msgs (st, d, sigs) = Some res"
  using assms(2,3)
proof (induction msgs arbitrary: st d sigs)
  case Nil
  then show ?case by simp
next
  case (Cons m msgs)
  from Cons.prems(2) have m: "tabs_apart (snd m)" "int (length (snd m)) \<le> IndexingBlockSize"
    and ms: "\<forall>m \<in> set msgs. tabs_apart (snd m) \<and> int (length (snd m)) \<le> IndexingBlockSize"
    by auto
  from blockParser_defined [OF assms(1) Cons.prems(1) m, of d sigs]
  obtain st1 d1 sg1 where step: "blockParser pf m (st, d, sigs) = Some (st1, d1, sg1)"
    and par1: "platform_parameters pf (encodingParams st1)"
    by blast
  from Cons.IH [OF par1 ms, of d1 sg1] step show ?case by simp
qed

lemma reader_messages_tabs_apart:
  assumes "tabs_apart (bytes f)"
  shows "\<forall>m \<in> set (blockReader intr k f @ [(- 1, [])]).
           tabs_apart (snd m) \<and> int (length (snd m)) \<le> IndexingBlockSize"
proof
  fix m assume "m \<in> set (blockReader intr k f @ [(- 1, [])])"
  then consider "m \<in> set (blockReader intr k f)" | "m = (- 1, [])" by auto
  then show "tabs_apart (snd m) \<and> int (length (snd m)) \<le> IndexingBlockSize"
  proof cases
    case 1
    from blockReader_messages [OF 1]
    have eq: "snd m = take (nat IndexingBlockSize) (drop (nat (fst m)) (bytes f))" by simp
    show ?thesis
      unfolding eq using tabs_apart_sublist [OF assms] by (simp add: IndexingBlockSize_def)
  next
    case 2
    then show ?thesis by (simp add: IndexingBlockSize_def tabs_apart_def)
  qed
qed

lemma doIndex_defined:
  assumes "well_formed_platform pf" and "tabs_apart (content env)"
  shows "\<exists>res. doIndex pf env p d = Some res"
proof (cases "open_file env")
  case None
  then show ?thesis by (simp add: doIndex_def)
next
  case (Some f)
  note ff = open_file_fields [OF Some]
  define st0 where "st0 = initial_state d p (int (length (bytes f))) pf"
  define msgs where "msgs = blockReader (interrupt env) 0 (seek f (pos st0)) @ [(- 1, [])]"
  have "bytes (seek f (pos st0)) = content env" using ff by (simp add: seek_def)
  with assms(2) have "tabs_apart (bytes (seek f (pos st0)))" by simp
  from reader_messages_tabs_apart [OF this]
  have small: "\<forall>m \<in> set msgs. tabs_apart (snd m) \<and> int (length (snd m)) \<le> IndexingBlockSize"
    unfolding msgs_def .
  have par0: "platform_parameters pf (encodingParams st0)"
    by (simp add: st0_def initial_state_def platform_parameters_def)
  from run_graph_defined [OF assms(1) par0 small, of d "[]"]
  obtain st' d' sg where run: "run_graph pf msgs (st0, d, []) = Some (st', d', sg)"
    by auto
  from finish_index_Some obtain d'' where "finish_index pf (interrupt env) st' d' = Some d''"
    by blast
  with Some run show ?thesis
    by (simp add: doIndex_def Let_def st0_def [symmetric] msgs_def [symmetric])
qed

lemma index_defined:
  assumes "well_formed_platform pf" and "tabs_apart (content env)"
  shows "\<exists>res. FullIndexOperation_run pf env forced d = Some res"
    and "\<exists>res. PartialIndexOperation_run pf env d = Some res"
proof -
  from doIndex_defined [OF assms, of 0 "forceEncoding forced (clear d)"]
  show "\<exists>res. FullIndexOperation_run pf env forced d = Some res"
    by (auto simp: FullIndexOperation_run_def Let_def)
  from doIndex_defined [OF assms, of "getIndexedSize d" d]
  show "\<exists>res. PartialIndexOperation_run pf env d = Some res"
    by (auto simp: PartialIndexOperation_run_def Let_def)
qed

lemma sample_platform_well_formed: "well_formed_platform sample_platform"
  by (simp add: well_formed_platform_def well_formed_def sample_defs)

lemma file_S2_tab_free: "TAB \<notin> set file_S2"
  by (simp add: file_S2_def TAB_def LF_def)

lemma file_S2_tabs_apart: "tabs_apart file_S2"
  using file_S2_tab_free by (rule tabs_apart_free)

text \<open>
  A second tab in the last line of a block: after each tab \<open>expandTabs\<close> searches one
  byte further than the line, and after the second tab of the file \<open>"\t\t"\<close> the search
  leaves the memory of the block. The operation has no result there.
\<close>

lemma two_tabs_leave_block:
  "expandTabs single_byte 0 [TAB, TAB] 0 0 2 0 = None
   \<and> FullIndexOperation_run sample_platform (plain_file [TAB, TAB]) None empty_data = None"
  by (simp add: index_defs file_defs data_defs scan_defs conversion_defs sample_defs Let_def)

section \<open>The parser as a scan of the bytes\<close>

lemma scan_lines_no_line_feed: "LF \<notin> set xs \<Longrightarrow> scan_lines pos' off ml xs = ([], pos', ml)"
  by (induction xs arbitrary: off) auto

lemma scan_lines_append:
  "scan_lines pos' off ml (xs @ ys) =
     (case scan_lines pos' off ml xs of
        (l1, p1, m1) \<Rightarrow>
          (case scan_lines p1 (off + int (length xs)) m1 ys of
             (l2, p2, m2) \<Rightarrow> (l1 @ l2, p2, m2)))"
proof (induction xs arbitrary: pos' off ml)
  case Nil
  show ?case by (simp split: prod.splits)
next
  case (Cons x xs)
  show ?case
    by (simp add: Cons.IH add.assoc split: prod.splits)
qed

lemma scan_lines_start:
  "fst (snd (scan_lines pos' off ml xs)) = fst (snd (scan_lines pos' off ml' xs))"
proof (induction xs arbitrary: pos' off ml ml')
  case Nil
  show ?case by simp
next
  case (Cons x xs)
  show ?case
  proof (cases "x = LF")
    case True
    with Cons.IH [of "off + 1" "off + 1" "max ml (off - pos')" "max ml' (off - pos')"]
    show ?thesis by (auto split: prod.splits)
  next
    case False
    with Cons.IH [of pos' "off + 1" ml ml'] show ?thesis by simp
  qed
qed

lemma scan_lines_bounds:
  assumes "scan_lines pos' off ml xs = (l, p, m)" and "pos' \<le> off"
  shows "pos' \<le> p \<and> p \<le> off + int (length xs) \<and> ml \<le> m"
  using assms
proof (induction xs arbitrary: pos' off ml l p m)
  case Nil
  then show ?case by simp
next
  case (Cons x xs)
  show ?case
  proof (cases "x = LF")
    case False
    with Cons.prems have "scan_lines pos' (off + 1) ml xs = (l, p, m)" by simp
    from Cons.IH [OF this] Cons.prems(2) show ?thesis by simp
  next
    case True
    with Cons.prems obtain l' where
      "scan_lines (off + 1) (off + 1) (max ml (off - pos')) xs = (l', p, m)"
      by (auto split: prod.splits)
    from Cons.IH [OF this] Cons.prems(2) show ?thesis by simp
  qed
qed

lemma short_lines_append:
  "short_lines_from pos' off (xs @ ys) \<longleftrightarrow>
     short_lines_from pos' off xs
     \<and> short_lines_from (fst (snd (scan_lines pos' off 0 xs))) (off + int (length xs)) ys"
proof (induction xs arbitrary: pos' off)
  case Nil
  show ?case by simp
next
  case (Cons x xs)
  show ?case
  proof (cases "x = LF")
    case True
    have "fst (snd (scan_lines (off + 1) (off + 1) (max 0 (off - pos')) xs))
        = fst (snd (scan_lines (off + 1) (off + 1) 0 xs))"
      by (rule scan_lines_start)
    with True Cons.IH [of "off + 1" "off + 1"] show ?thesis
      by (auto simp: add.assoc split: prod.splits)
  next
    case False
    with Cons.IH [of pos' "off + 1"] show ?thesis by (auto simp: add.assoc)
  qed
qed

lemma short_lines_hd: "short_lines_from pos' off xs \<Longrightarrow> xs \<noteq> [] \<Longrightarrow> off - pos' \<le> 2 ^ 31"
  by (cases xs) auto

lemma short_lines_small:
  "pos' \<le> off \<Longrightarrow> off + int (length xs) - pos' \<le> 2 ^ 31 + 1 \<Longrightarrow> short_lines_from pos' off xs"
proof (induction xs arbitrary: pos' off)
  case Nil
  show ?case by simp
next
  case (Cons x xs)
  have a: "short_lines_from (off + 1) (off + 1) xs"
    using Cons.prems by (intro Cons.IH) auto
  have b: "short_lines_from pos' (off + 1) xs"
    using Cons.prems by (intro Cons.IH) auto
  from a b Cons.prems show ?case by simp
qed

lemma in_reach_short_lines:
  "covers off msgs bs \<Longrightarrow> short_lines_from pos' off bs \<Longrightarrow> in_reach pos' msgs"
proof (induction msgs arbitrary: off bs pos')
  case Nil
  show ?case by simp
next
  case (Cons m msgs)
  define block where "block = snd m"
  define rest where "rest = drop (length block) bs"
  from Cons.prems(1) have off: "fst m = off" and ne: "block \<noteq> []"
    and blk: "block = take (length block) bs"
    and cov: "covers (off + int (length block)) msgs rest"
    by (simp_all add: block_def rest_def)
  have bs: "bs = block @ rest"
    using blk by (simp add: rest_def) (metis append_take_drop_id)
  from Cons.prems(2) have s1: "short_lines_from pos' off block"
    and s2: "short_lines_from (fst (snd (scan_lines pos' off 0 block))) (off + int (length block)) rest"
    unfolding bs short_lines_append by simp_all
  from Cons.IH [OF cov s2] short_lines_hd [OF s1 ne] show ?case
    by (simp add: off block_def)
qed

lemma in_reach_starts:
  "covers off msgs bs \<Longrightarrow> pos' \<le> off \<Longrightarrow> \<forall>m \<in> set msgs. fst m - pos' \<le> 2 ^ 31
   \<Longrightarrow> in_reach pos' msgs"
proof (induction msgs arbitrary: off bs pos')
  case Nil
  show ?case by simp
next
  case (Cons m msgs)
  define block where "block = snd m"
  from Cons.prems(1) have off: "fst m = off"
    and cov: "covers (off + int (length block)) msgs (drop (length block) bs)"
    by (simp_all add: block_def)
  obtain l p mx where s: "scan_lines pos' off 0 block = (l, p, mx)"
    by (cases "scan_lines pos' off 0 block") auto
  from scan_lines_bounds [OF s Cons.prems(2)]
  have p: "pos' \<le> p" "p \<le> off + int (length block)" by simp_all
  from Cons.prems(3) p have "\<forall>m \<in> set msgs. fst m - p \<le> 2 ^ 31" by auto
  from Cons.IH [OF cov p(2) this] Cons.prems(3) show ?case
    by (simp add: off s block_def [symmetric])
qed

lemma scan_lines_first_line_feed:
  assumes "LF \<notin> set xs"
  shows "scan_lines pos' off ml (xs @ LF # ys) =
     (case scan_lines (off + int (length xs) + 1) (off + int (length xs) + 1)
             (max ml (off + int (length xs) - pos')) ys of
        (l, p, m) \<Rightarrow> ((off + int (length xs) + 1) # l, p, m))"
  by (simp add: scan_lines_append scan_lines_no_line_feed [OF assms] split: prod.splits)

lemma scan_lines_max:
  "0 \<le> ml \<Longrightarrow>
   scan_lines pos' off ml xs =
     (case scan_lines pos' off 0 xs of (l, p, m) \<Rightarrow> (l, p, max ml m))"
proof (induction xs arbitrary: pos' off ml)
  case Nil
  then show ?case by simp
next
  case (Cons x xs)
  show ?case
  proof (cases "x = LF")
    case False
    with Cons.IH [OF Cons.prems, of pos' "off + 1"] show ?thesis by simp
  next
    case True
    have a: "scan_lines (off + 1) (off + 1) (max ml (off - pos')) xs =
       (case scan_lines (off + 1) (off + 1) 0 xs of (l, p, m) \<Rightarrow> (l, p, max (max ml (off - pos')) m))"
      using Cons.prems by (intro Cons.IH) simp
    have b: "scan_lines (off + 1) (off + 1) (max 0 (off - pos')) xs =
       (case scan_lines (off + 1) (off + 1) 0 xs of (l, p, m) \<Rightarrow> (l, p, max (max 0 (off - pos')) m))"
      by (intro Cons.IH) simp
    show ?thesis
      using True Cons.prems by (auto simp: a b split: prod.splits)
  qed
qed

lemma scan_lines_terminated:
  "fst (snd (scan_lines pos' off ml (xs @ [LF]))) = off + int (length xs) + 1"
  by (simp add: scan_lines_append split: prod.splits)

lemma if_less_max: "(if a < b then b else a) = max a (b::int)"
  by (simp add: max_def)

lemma block_size_positive: "nat IndexingBlockSize = 1048576"
  by (simp add: IndexingBlockSize_def)

lemma blocks_from_Suc:
  "blocks_from F p (Suc n) = block_at F p 0 # blocks_from F (p + nat IndexingBlockSize) n"
proof -
  have "[0..<Suc n] = 0 # map Suc [0..<n]"
    by (simp add: upt_conv_Cons map_Suc_upt del: upt_Suc)
  moreover have "block_at F p (Suc k) = block_at F (p + nat IndexingBlockSize) k" for k
    by (simp add: block_at_def add.assoc)
  ultimately show ?thesis by (simp add: blocks_from_def comp_def)
qed

lemma block_count_end: "length F \<le> p \<Longrightarrow> block_count F p = 0"
  by (simp add: block_count_def block_size_positive)

lemma block_count_step:
  assumes "p < length F"
  shows "block_count F p
           = Suc (block_count F (p + length (take (nat IndexingBlockSize) (drop p F))))"
proof -
  define B where "B = nat IndexingBlockSize"
  have B: "0 < B" by (simp add: B_def block_size_positive)
  show ?thesis
  proof (cases "length F - p < B")
    case True
    then have len: "length (take B (drop p F)) = length F - p" by simp
    have "B * Suc 0 \<le> length F - p + (B - 1)" "length F - p + (B - 1) < B * Suc (Suc 0)"
      using True assms B by simp_all
    then have one: "(length F - p + (B - 1)) div B = Suc 0" by (rule div_nat_eqI)
    have zero: "(length F - (p + (length F - p)) + (B - 1)) div B = 0"
      using assms B by simp
    show ?thesis
      unfolding block_count_def B_def [symmetric] len one zero ..
  next
    case False
    then have len: "length (take B (drop p F)) = B" by simp
    have "length F - p + (B - 1) = (length F - (p + B) + (B - 1)) + B"
      using False by simp
    then have "(length F - p + (B - 1)) div B = Suc ((length F - (p + B) + (B - 1)) div B)"
      using B by (simp only: div_add_self2)
    then show ?thesis
      unfolding block_count_def B_def [symmetric] len .
  qed
qed

lemma blockReader_blocks:
  assumes "\<forall>j. \<not> interruptRequest intr (ReaderCheck j)"
  shows "blockReader intr k \<lparr>bytes = F, file_pos = p, reads_left = rl\<rparr>
           = blocks_from F p (case rl of None \<Rightarrow> block_count F p
                                | Some n \<Rightarrow> min n (block_count F p))"
proof (induction "length F - p" arbitrary: k p rl rule: less_induct)
  case less
  define f where "f = \<lparr>bytes = F, file_pos = p, reads_left = rl\<rparr>"
  have fields: "bytes f = F" "file_pos f = p" by (simp_all add: f_def)
  show ?case
  proof (cases "length F \<le> p")
    case True
    then show ?thesis
      by (subst blockReader.simps)
         (simp add: atEnd_def block_count_end blocks_from_def split: option.splits)
  next
    case False
    then have p: "p < length F" by simp
    show ?thesis
    proof (cases "rl = Some 0")
      case True
      with p assms show ?thesis
        by (subst blockReader.simps)
           (simp add: atEnd_def file_read_def blocks_from_def IndexingBlockSize_def)
    next
      case more: False
      define b where "b = take (nat IndexingBlockSize) (drop p F)"
      define rl' where "rl' = map_option (\<lambda>n. n - 1) rl"
      have rd: "file_read f IndexingBlockSize
          = (int (length b), b, \<lparr>bytes = F, file_pos = p + length b, reads_left = rl'\<rparr>)"
        using more by (simp add: file_read_def f_def b_def rl'_def IndexingBlockSize_def Let_def)
      have ne: "b \<noteq> []" using p by (simp add: b_def block_size_positive)
      have unfold: "blockReader intr k f
          = (int p, b) # blockReader intr (Suc k) \<lparr>bytes = F, file_pos = p + length b, reads_left = rl'\<rparr>"
        using p assms by (subst blockReader.simps) (simp add: rd atEnd_def fields)
      have "0 < length b" using ne by simp
      with p have smaller: "length F - (p + length b) < length F - p" by linarith
      note ih = less.hyps [OF smaller, of "Suc k" rl']
      have cnt: "block_count F p = Suc (block_count F (p + length b))"
        unfolding b_def using p by (rule block_count_step)
      define N where "N = (case rl' of None \<Rightarrow> block_count F (p + length b)
                 | Some n \<Rightarrow> min n (block_count F (p + length b)))"
      have n: "(case rl of None \<Rightarrow> block_count F p | Some n \<Rightarrow> min n (block_count F p)) = Suc N"
        using more by (cases rl) (auto simp: rl'_def cnt N_def)
      have N_le: "N \<le> block_count F (p + length b)"
        by (cases rl') (simp_all add: N_def)
      have tail: "blocks_from F (p + length b) m = blocks_from F (p + nat IndexingBlockSize) m"
        if "m \<le> block_count F (p + length b)" for m
      proof (cases "length b = nat IndexingBlockSize")
        case True
        then show ?thesis by simp
      next
        case False
        then have "length F - p < nat IndexingBlockSize" by (auto simp: b_def)
        then have "length F \<le> p + length b" by (simp add: b_def)
        with that have "m = 0" by (simp add: block_count_end)
        then show ?thesis by (simp add: blocks_from_def)
      qed
      have first: "block_at F p 0 = (int p, b)" by (simp add: block_at_def b_def)
      show ?thesis
        unfolding f_def [symmetric] unfold ih N_def [symmetric] n blocks_from_Suc first
          tail [OF N_le] ..
    qed
  qed
qed

lemma covers_blocks_from:
  "p + n * nat IndexingBlockSize \<le> length F \<Longrightarrow>
   covers (int p) (blocks_from F p n) (take (n * nat IndexingBlockSize) (drop p F))"
proof (induction n arbitrary: p)
  case 0
  show ?case by (simp add: blocks_from_def)
next
  case (Suc n)
  define B where "B = nat IndexingBlockSize"
  have B: "B = 1048576" by (simp add: B_def block_size_positive)
  from Suc.prems have fit: "p + B + n * B \<le> length F" by (simp add: B_def)
  have len: "length (take B (drop p F)) = B" using fit by simp
  have ih: "covers (int (p + B)) (blocks_from F (p + B) n) (take (n * B) (drop (p + B) F))"
    unfolding B_def using fit by (intro Suc.IH) (simp add: B_def)
  have t: "take B (take (Suc n * B) (drop p F)) = take B (drop p F)"
    by (simp add: min_def)
  have d: "drop B (take (Suc n * B) (drop p F)) = take (n * B) (drop (p + B) F)"
    by (simp add: drop_take add.commute)
  have m: "block_at F p 0 = (int p, take B (drop p F))" by (simp add: block_at_def B_def)
  have ne: "take B (drop p F) \<noteq> []" using len B by auto
  have small: "int (length (take B (drop p F))) \<le> IndexingBlockSize"
    unfolding len by (simp add: B_def IndexingBlockSize_def)
  have eq: "take B (drop p F) = take (length (take B (drop p F))) (take (Suc n * B) (drop p F))"
    unfolding len t ..
  have rest: "covers (int p + int (length (take B (drop p F)))) (blocks_from F (p + B) n)
      (drop (length (take B (drop p F))) (take (Suc n * B) (drop p F)))"
    unfolding len d using ih by simp
  show ?case
    unfolding blocks_from_Suc B_def [symmetric] m covers.simps fst_conv snd_conv
    using ne small eq rest by (intro conjI) simp_all
qed

lemma parse_loop_step:
  assumes "encodingParams st = single_byte" and "TAB \<notin> set block"
    and "additional_spaces st = 0"
    and "0 \<le> pos st" and "0 \<le> bb" and "pos st \<le> bb + int (length block)"
    and "bb - pos st \<le> 2 ^ 31" and "int (length block) \<le> IndexingBlockSize"
  shows "parse_loop bb block st lps =
     (case index_of LF (drop (nat (pos st - bb)) block) of
        None \<Rightarrow> Some (st, lps)
      | Some j \<Rightarrow>
          parse_loop bb block
            (st\<lparr>line_end := max (pos st) bb + int j,
               max_length := max (max_length st) (max (pos st) bb + int j - pos st),
               pos := max (pos st) bb + int j + 1,
               additional_spaces := 0\<rparr>)
            (lps @ [max (pos st) bb + int j + 1]))"
proof -
  define pwb where "pwb = nat (pos st - bb)"
  have cast: "to_int32 (pos st - bb) = pos st - bb"
    using assms(4-8) by (intro to_int32_small) (auto simp: IndexingBlockSize_def)
  have pwb_int: "max (to_int32 (pos st - bb)) 0 = int pwb"
    by (simp add: cast pwb_def)
  have pwb_le: "pwb \<le> length block" using assms(6) by (simp add: pwb_def)
  have off: "max (pos st) bb = bb + int pwb" by (simp add: pwb_def)
  have st_eq: "st\<lparr>additional_spaces := 0\<rparr> = st" using assms(3) by (cases st) simp
  show ?thesis
  proof (cases "pwb = length block")
    case True
    then show ?thesis
      apply (subst parse_loop.simps)
      apply (simp only: pwb_int Let_def)
      apply (simp add: pwb_def [symmetric])
      done
  next
    case False
    with pwb_le have less: "pwb < length block" by simp
    have m: "memchr (data block) pwb LF (nat (int (length block) - int pwb)) =
       (case index_of LF (drop pwb block) of Some j \<Rightarrow> Found (pwb + j) | None \<Rightarrow> NotFound)"
      using memchr_line_feed [OF pwb_le] less by (simp add: nat_diff_distrib')
    show ?thesis
    proof (cases "index_of LF (drop pwb block)")
      case None
      have t: "expandTabs (encodingParams st) bb block (pos st) pwb
                 (int (length block) - int pwb) (additional_spaces st) = Some (additional_spaces st)"
        using less by (intro expandTabs_no_tab [OF assms(2)]) simp
      have pos: "0 < int (length block) - int pwb" using less by simp
      show ?thesis
        apply (subst parse_loop.simps)
        apply (simp only: pwb_int Let_def nat_int pos if_True m None option.case scan.case t)
        apply (simp add: pwb_def [symmetric] assms(3) st_eq None)
        done
    next
      case (Some j)
      from index_of_Some [OF Some] have j: "pwb + j < length block" by auto
      have t: "expandTabs (encodingParams st) bb block (pos st) pwb
                 (int (pwb + j) - int pwb) (additional_spaces st) = Some (additional_spaces st)"
        using j by (intro expandTabs_no_tab [OF assms(2)]) simp
      have k32: "to_int32 (int (pwb + j)) = int (pwb + j)"
        using j assms(8) by (intro to_int32_small) (auto simp: IndexingBlockSize_def)
      have len: "to_uint32 (int pwb + int j + bb - pos st) = int pwb + int j + bb - pos st"
        using j assms(4-8) by (intro to_uint32_small) (auto simp: pwb_def IndexingBlockSize_def)
      have pos: "0 < int (length block) - int pwb" using less by simp
      show ?thesis
        apply (subst parse_loop.simps)
        apply (simp only: pwb_int Let_def nat_int pos if_True m Some option.case scan.case t)
        apply (simp only: k32 assms(1,3) if_less_max off)
        apply (simp add: single_byte_def len)
        apply (simp add: pwb_def [symmetric] Some ac_simps)
        done
    qed
  qed
qed

lemma parse_loop_scan:
  assumes "encodingParams st = single_byte" and "TAB \<notin> set block"
    and "additional_spaces st = 0"
    and "0 \<le> pos st" and "0 \<le> bb" and "pos st \<le> bb + int (length block)"
    and "bb - pos st \<le> 2 ^ 31" and "int (length block) \<le> IndexingBlockSize"
  shows "\<exists>e. parse_loop bb block st lps =
     (case scan_lines (pos st) (max (pos st) bb) (max_length st) (drop (nat (pos st - bb)) block) of
        (l, p, m) \<Rightarrow> Some (st\<lparr>pos := p, max_length := m, line_end := e\<rparr>, lps @ l))"
  using assms
proof (induction "length block - nat (pos st - bb)" arbitrary: st lps rule: less_induct)
  case less
  define pwb where "pwb = nat (pos st - bb)"
  define off where "off = max (pos st) bb"
  define rest where "rest = drop pwb block"
  note step = parse_loop_step [OF less.prems, of lps, folded pwb_def off_def rest_def]
  show ?case
  proof (cases "index_of LF rest")
    case None
    then have "LF \<notin> set rest" by (simp add: index_of_None)
    then have "scan_lines (pos st) off (max_length st) rest = ([], pos st, max_length st)"
      by (rule scan_lines_no_line_feed)
    then show ?thesis
      unfolding pwb_def [symmetric] off_def [symmetric] rest_def [symmetric] step None
      by (intro exI [of _ "line_end st"]) simp
  next
    case (Some j)
    note js = index_of_Some [OF Some]
    define q where "q = off + int j + 1"
    define st' where "st' = st\<lparr>line_end := off + int j,
               max_length := max (max_length st) (off + int j - pos st),
               pos := q, additional_spaces := 0\<rparr>"
    have j: "pwb + j < length block" using js by (auto simp: rest_def)
    have off_eq: "off = bb + int pwb" by (simp add: off_def pwb_def)
    have q_bb: "nat (q - bb) = pwb + j + 1" by (simp add: q_def off_eq)
    have max_q: "max q bb = q" using less.prems(5) by (simp add: q_def off_eq)
    have smaller: "length block - nat (pos st' - bb) < length block - nat (pos st - bb)"
      using j by (simp add: st'_def q_bb pwb_def [symmetric])
    have prems': "encodingParams st' = single_byte" "additional_spaces st' = 0"
      "0 \<le> pos st'" "pos st' \<le> bb + int (length block)"
      using less.prems j by (auto simp: st'_def q_def off_eq)
    have reach': "bb - pos st' \<le> 2 ^ 31"
      using less.prems(7) j by (simp add: st'_def q_def off_def)
    from less.hyps [OF smaller prems'(1) less.prems(2) prems'(2,3) less.prems(5) prems'(4) reach'
        less.prems(8), of "lps @ [q]"]
    obtain e where ih: "parse_loop bb block st' (lps @ [q]) =
      (case scan_lines q q (max (max_length st) (off + int j - pos st)) (drop (pwb + j + 1) block) of
         (l, p, m) \<Rightarrow> Some (st'\<lparr>pos := p, max_length := m, line_end := e\<rparr>, (lps @ [q]) @ l))"
      by (auto simp: st'_def max_q q_bb)
    have split: "rest = take j rest @ LF # drop (pwb + j + 1) block"
      using js id_take_nth_drop [of j rest] by (simp add: rest_def add.commute)
    have free: "LF \<notin> set (take j rest)" using js by simp
    have len: "int (length (take j rest)) = int j" using js by simp
    have "scan_lines (pos st) off (max_length st) rest =
      (case scan_lines q q (max (max_length st) (off + int j - pos st)) (drop (pwb + j + 1) block) of
         (l, p, m) \<Rightarrow> (q # l, p, m))"
      by (subst split) (simp only: scan_lines_first_line_feed [OF free] len q_def)
    moreover have "st'\<lparr>pos := p, max_length := m, line_end := e\<rparr>
        = st\<lparr>pos := p, max_length := m, line_end := e\<rparr>" for p m
      using less.prems(3) by (cases st) (simp add: st'_def)
    ultimately show ?thesis
      unfolding pwb_def [symmetric] off_def [symmetric] rest_def [symmetric] step Some
      using ih by (intro exI [of _ e]) (simp add: st'_def q_def split: prod.splits)
  qed
qed

lemma blockReader_covers:
  "reads_left f = None \<Longrightarrow>
   covers (int (file_pos f)) (blockReader None k f) (drop (file_pos f) (bytes f))"
proof (induction "None :: checkpoint option" k f rule: blockReader.induct)
  case (1 k f)
  show ?case
  proof (cases "atEnd f")
    case True
    then show ?thesis
      by (subst blockReader.simps) (simp add: atEnd_def)
  next
    case False
    define b where "b = take (nat IndexingBlockSize) (drop (file_pos f) (bytes f))"
    define f' where "f' = f\<lparr>file_pos := file_pos f + length b\<rparr>"
    have rd: "file_read f IndexingBlockSize = (int (length b), b, f')"
      using "1.prems" by (simp add: file_read_ok b_def f'_def IndexingBlockSize_def)
    have ne: "b \<noteq> []"
      using False by (simp add: b_def atEnd_def IndexingBlockSize_def)
    have unfold: "blockReader None k f = (int (file_pos f), b) # blockReader None (Suc k) f'"
      using False by (subst blockReader.simps) (simp add: rd)
    have ih: "covers (int (file_pos f')) (blockReader None (Suc k) f') (drop (file_pos f') (bytes f'))"
      using False rd "1.prems" by (intro "1.hyps" [of "int (length b)" "(b, f')" b f']) (auto simp: f'_def)
    have b_len: "int (length b) \<le> IndexingBlockSize"
      by (simp add: b_def IndexingBlockSize_def)
    have b_take: "b = take (length b) (drop (file_pos f) (bytes f))"
      by (simp add: b_def min_def)
    show ?thesis
      unfolding unfold using ih ne b_len b_take
      by (simp add: f'_def add.commute)
  qed
qed

lemma guessEncoding_fields:
  "pos (guessEncoding pf d block st) = pos st"
  "additional_spaces (guessEncoding pf d block st) = additional_spaces st"
  "file_size (guessEncoding pf d block st) = file_size st"
  "fileTextCodec (guessEncoding pf d block st) \<noteq> None"
  "encodingGuess (guessEncoding pf d block st) \<noteq> None"
  by (simp_all add: guessEncoding_def Let_def split: option.splits)

lemma ready_after:
  "fileTextCodec st \<noteq> None \<Longrightarrow> encodingParams st = single_byte \<Longrightarrow> ready pf d st"
  by (auto simp: ready_def guessEncoding_def Let_def split: option.splits)

lemma run_graph_append:
  "run_graph pf (xs @ ys) sd =
     (case run_graph pf xs sd of None \<Rightarrow> None | Some sd' \<Rightarrow> run_graph pf ys sd')"
  by (induction xs arbitrary: sd) (auto split: option.splits)


lemma blockParser_scan:
  assumes "block \<noteq> []" and "int (length block) \<le> IndexingBlockSize"
    and "TAB \<notin> set block" and "0 \<le> off" and "off - pos st \<le> 2 ^ 31"
    and "encodingParams (guessEncoding pf d block st) = single_byte"
    and "0 \<le> pos st" and "pos st \<le> off"
    and "additional_spaces st = 0" and "\<not> fakeFinalLF (linePosition d)"
  shows "\<exists>st' d' sg'. blockParser pf (off, block) (st, d, sigs) = Some (st', d', sg')
     \<and> (case scan_lines (pos st) off 0 block of
          (l, p, m) \<Rightarrow> pos st' = p
             \<and> array (linePosition d') = array (linePosition d) @ l
             \<and> maxLength d' = max (maxLength d) m)
     \<and> additional_spaces st' = 0 \<and> ready pf d' st' \<and> \<not> fakeFinalLF (linePosition d')"
proof -
  define st1 where "st1 = (guessEncoding pf d block st)\<lparr>max_length := 0\<rparr>"
  have par: "encodingParams st1 = single_byte"
    using assms(6) by (simp add: st1_def)
  have f1: "pos st1 = pos st" "additional_spaces st1 = 0" "fileTextCodec st1 \<noteq> None"
    "max_length st1 = 0"
    using assms(9) by (simp_all add: st1_def guessEncoding_fields)
  have in_block: "pos st1 \<le> off + int (length block)" using assms(8) f1 by simp
  have reach: "off - pos st1 \<le> 2 ^ 31" using assms(5) f1 by simp
  from parse_loop_scan [OF par assms(3) f1(2) _ assms(4) in_block reach assms(2), of "[]"]
    assms(7) f1
  obtain e where loop: "parse_loop off block st1 [] =
     (case scan_lines (pos st) (max (pos st) off) 0 (drop (nat (pos st - off)) block) of
        (l, p, m) \<Rightarrow> Some (st1\<lparr>pos := p, max_length := m, line_end := e\<rparr>, l))"
    by auto
  obtain l p m where sc: "scan_lines (pos st) off 0 block = (l, p, m)"
    by (cases "scan_lines (pos st) off 0 block") auto
  define st2 where "st2 = st1\<lparr>pos := p, max_length := m, line_end := e\<rparr>"
  have parse: "parseDataBlock off block (guessEncoding pf d block st) = Some (st2, l)"
    using loop sc assms(8) by (simp add: parseDataBlock_def st1_def [symmetric] st2_def max_def)
  have "block = [] \<or> tailBlocks (indexedHash d) \<noteq> []
      \<or> int (length block) \<le> 2 * IndexingBlockSize"
    using assms(2) by (simp add: IndexingBlockSize_def)
  from addAll_Some [OF this] obtain d' where
    add: "addAll pf block (max_length st2) \<lparr>array = l, fakeFinalLF = False\<rparr> (encodingGuess st2) d
            = Some d'"
    by blast
  note fields = addAll_fields [OF add]
  have run: "blockParser pf (off, block) (st, d, sigs) =
     Some (st2, d', sigs @ [indexingProgressed
                              (if file_size st2 > 0
                               then calculateProgress pf (pos st2) (file_size st2)
                               else 100)])"
    using assms(1,4) parse add by (simp add: blockParser_def Let_def)
  have ready': "ready pf d' st2"
    using f1(3) par by (intro ready_after) (simp_all add: st2_def)
  show ?thesis
    unfolding run sc using fields(3,4) ready' f1(2) assms(10)
    by (simp add: st2_def append_list_def)
qed

lemma run_graph_scan:
  assumes "covers off msgs bs" and "TAB \<notin> set bs" and "0 \<le> off"
    and "in_reach (pos st) msgs"
    and "msgs \<noteq> [] \<longrightarrow> encodingParams (guessEncoding pf d (snd (hd msgs)) st) = single_byte"
    and "0 \<le> pos st" and "pos st \<le> off"
    and "additional_spaces st = 0" and "0 \<le> maxLength d"
    and "\<not> fakeFinalLF (linePosition d)"
  shows "\<exists>st' d' sg'. run_graph pf msgs (st, d, sigs) = Some (st', d', sg')
     \<and> (case scan_lines (pos st) off 0 bs of
          (l, p, m) \<Rightarrow> pos st' = p
             \<and> array (linePosition d') = array (linePosition d) @ l
             \<and> maxLength d' = max (maxLength d) m)
     \<and> additional_spaces st' = 0 \<and> (msgs \<noteq> [] \<or> ready pf d st \<longrightarrow> ready pf d' st')
     \<and> \<not> fakeFinalLF (linePosition d')"
  using assms
proof (induction msgs arbitrary: off bs st d sigs)
  case Nil
  then show ?case by simp
next
  case (Cons msg msgs)
  obtain bb block where msg: "msg = (bb, block)" by (cases msg) auto
  define rest where "rest = drop (length block) bs"
  from Cons.prems(1) have bb: "bb = off" and ne: "block \<noteq> []"
    and small: "int (length block) \<le> IndexingBlockSize"
    and blk: "block = take (length block) bs"
    and cov: "covers (off + int (length block)) msgs rest"
    by (simp_all add: msg rest_def)
  have bs: "bs = block @ rest"
    using blk by (simp add: rest_def) (metis append_take_drop_id)
  have tab1: "TAB \<notin> set block" and tab2: "TAB \<notin> set rest"
    using Cons.prems(2) bs by auto
  from Cons.prems(4) have reach: "off - pos st \<le> 2 ^ 31"
    and reach': "in_reach (fst (snd (scan_lines (pos st) off 0 block))) msgs"
    by (simp_all add: msg bb)
  from Cons.prems(5) have first: "encodingParams (guessEncoding pf d block st) = single_byte"
    by (simp add: msg)
  from blockParser_scan [OF ne small tab1 Cons.prems(3) reach first Cons.prems(6-8,10), of sigs]
  obtain st1 d1 sg1 where
    step: "blockParser pf (off, block) (st, d, sigs) = Some (st1, d1, sg1)"
    and sc1: "case scan_lines (pos st) off 0 block of
          (l, p, m) \<Rightarrow> pos st1 = p
             \<and> array (linePosition d1) = array (linePosition d) @ l
             \<and> maxLength d1 = max (maxLength d) m"
    and add1: "additional_spaces st1 = 0" and ready1: "ready pf d1 st1"
    and flag1: "\<not> fakeFinalLF (linePosition d1)"
    by (elim exE conjE)
  obtain l1 p1 m1 where s1: "scan_lines (pos st) off 0 block = (l1, p1, m1)"
    by (cases "scan_lines (pos st) off 0 block") auto
  note b1 = scan_lines_bounds [OF s1 Cons.prems(7)]
  from sc1 s1 have pos1: "pos st1 = p1"
    and arr1: "array (linePosition d1) = array (linePosition d) @ l1"
    and max1: "maxLength d1 = max (maxLength d) m1"
    by simp_all
  have off': "0 \<le> off + int (length block)" using Cons.prems(3) by simp
  have reach1: "in_reach (pos st1) msgs" using reach' s1 pos1 by simp
  have first1: "msgs \<noteq> [] \<longrightarrow> encodingParams (guessEncoding pf d1 (snd (hd msgs)) st1) = single_byte"
    using ready1 by (simp add: ready_def)
  have p1_ok: "0 \<le> pos st1" "pos st1 \<le> off + int (length block)"
    using b1 Cons.prems(6) pos1 by auto
  have max1_ok: "0 \<le> maxLength d1" using max1 Cons.prems(9) by simp
  from Cons.IH [OF cov tab2 off' reach1 first1 p1_ok add1 max1_ok flag1, of sg1]
  obtain st' d' sg' where
    run: "run_graph pf msgs (st1, d1, sg1) = Some (st', d', sg')"
    and sc2: "case scan_lines (pos st1) (off + int (length block)) 0 rest of
          (l, p, m) \<Rightarrow> pos st' = p
             \<and> array (linePosition d') = array (linePosition d1) @ l
             \<and> maxLength d' = max (maxLength d1) m"
    and add': "additional_spaces st' = 0"
    and ready': "msgs \<noteq> [] \<or> ready pf d1 st1 \<longrightarrow> ready pf d' st'"
    and flag': "\<not> fakeFinalLF (linePosition d')"
    by (elim exE conjE)
  obtain l2 p2 m2 where s2: "scan_lines p1 (off + int (length block)) 0 rest = (l2, p2, m2)"
    by (cases "scan_lines p1 (off + int (length block)) 0 rest") auto
  have m1_ok: "0 \<le> m1" using b1 by simp
  have s2': "scan_lines p1 (off + int (length block)) m1 rest = (l2, p2, max m1 m2)"
    using scan_lines_max [OF m1_ok, of p1 "off + int (length block)" rest] s2 by simp
  have whole: "scan_lines (pos st) off 0 bs = (l1 @ l2, p2, max m1 m2)"
    unfolding bs by (simp add: scan_lines_append s1 s2')
  have total: "run_graph pf (msg # msgs) (st, d, sigs) = Some (st', d', sg')"
    using step run by (simp add: msg bb)
  show ?case
    unfolding total whole using sc2 s2 pos1 arr1 max1 add' ready' ready1 flag'
    by (simp add: max.assoc)
qed

lemma covers_concat: "covers off msgs bs \<Longrightarrow> concat (map snd msgs) = bs"
proof (induction msgs arbitrary: off bs)
  case Nil
  then show ?case by simp
next
  case (Cons m msgs)
  from Cons.prems have m: "snd m = take (length (snd m)) bs"
    and rest: "covers (off + int (length (snd m))) msgs (drop (length (snd m)) bs)"
    by simp_all
  from Cons.IH [OF rest] have "concat (map snd (m # msgs)) = snd m @ drop (length (snd m)) bs"
    by simp
  also have "\<dots> = take (length (snd m)) bs @ drop (length (snd m)) bs"
    using m by simp
  finally show ?case by simp
qed

lemma finish_index_guess:
  "finish_index pf intr st d = Some d' \<Longrightarrow> dataEncodingGuess d' \<noteq> None"
  by (auto simp: finish_index_def addAll_def setEncodingGuess_def getEncodingGuess_def clear_def
      Let_def split: if_splits)

lemma finish_index_digest_ok:
  assumes "finish_index pf intr st d = Some d'" and "\<not> interruptRequest intr ClearCheck"
    and "digest_ok pf d"
  shows "digest_ok pf d'"
  using finish_index_keeps [OF assms(1,2)] assms(3)
  by (simp add: digest_ok_def getIndexedSize_def)

section \<open>Checking a file for changes\<close>

lemma take_split:
  "b \<le> a \<Longrightarrow>
   take a xs = take b xs @ take (a - length (take b xs)) (drop (length (take b xs)) xs)"
proof (cases "b \<le> length xs")
  case True
  assume "b \<le> a"
  then have "take a xs = take (b + (a - b)) xs" by simp
  also have "\<dots> = take b xs @ take (a - b) (drop b xs)" by (rule take_add)
  finally show ?thesis using True by simp
next
  case False
  assume "b \<le> a"
  with False show ?thesis by simp
qed

lemma getDigest_loop_reads:
  "reads_left f = None \<Longrightarrow> 0 < buffer_size \<Longrightarrow>
   getDigest_loop f buffer_size indexedSize totalSize added =
     (added @ take (nat (indexedSize - totalSize)) (drop (file_pos f) (bytes f)),
      f\<lparr>file_pos := file_pos f + length (take (nat (indexedSize - totalSize)) (drop (file_pos f) (bytes f)))\<rparr>)"
proof (induction f buffer_size indexedSize totalSize added rule: getDigest_loop.induct)
  case (1 f buffer_size indexedSize totalSize added)
  let ?n = "indexedSize - totalSize"
  let ?rest = "drop (file_pos f) (bytes f)"
  show ?case
  proof (cases "?n \<le> 0")
    case True
    then show ?thesis
      using 1(2,3)
      by (subst getDigest_loop.simps) (auto simp: file_read_def Let_def min_def)
  next
    case False
    define m where "m = min buffer_size ?n"
    define d where "d = take (nat m) ?rest"
    define f' where "f' = f\<lparr>file_pos := file_pos f + length d\<rparr>"
    have m_pos: "0 < m" using False 1(3) by (simp add: m_def)
    have rd: "file_read f m = (int (length d), d, f')"
      using m_pos 1(2) by (simp add: file_read_ok d_def f'_def)
    have unfold: "getDigest_loop f buffer_size indexedSize totalSize added =
       (if 0 < int (length d) \<and> totalSize + int (length d) < indexedSize
        then getDigest_loop f' buffer_size indexedSize (totalSize + int (length d)) (added @ d)
        else (if 0 < int (length d) then added @ d else added, f'))"
      by (subst getDigest_loop.simps) (simp add: m_def[symmetric] rd Let_def)
    show ?thesis
    proof (cases "0 < int (length d) \<and> totalSize + int (length d) < indexedSize")
      case True
      have ih: "getDigest_loop f' buffer_size indexedSize (totalSize + int (length d)) (added @ d) =
         ((added @ d) @ take (nat (indexedSize - (totalSize + int (length d)))) (drop (file_pos f') (bytes f')),
          f'\<lparr>file_pos := file_pos f' + length (take (nat (indexedSize - (totalSize + int (length d)))) (drop (file_pos f') (bytes f')))\<rparr>)"
        using True 1(2,3) "1.IH"[OF m_def rd[symmetric] refl refl refl]
        by (simp add: f'_def)
      have "nat m \<le> nat ?n" by (simp add: m_def)
      from take_split [OF this, of ?rest]
      have split: "take (nat ?n) ?rest = d @ take (nat (?n - int (length d))) (drop (file_pos f + length d) (bytes f))"
        using True by (simp add: d_def nat_diff_distrib' add.commute)
      show ?thesis
        unfolding unfold ih using True split by (simp add: f'_def algebra_simps)
    next
      case False
      have "nat m \<le> nat ?n" by (simp add: m_def)
      from take_split [OF this, of ?rest]
      have split: "take (nat ?n) ?rest = d @ take (nat ?n - length d) (drop (file_pos f + length d) (bytes f))"
        by (simp add: d_def add.commute)
      have "length d \<le> nat m" by (simp add: d_def)
      then have le: "int (length d) \<le> ?n" using m_pos unfolding m_def by linarith
      show ?thesis
      proof (cases "length d = 0")
        case True
        then have "?rest = []" using m_pos by (simp add: d_def)
        then show ?thesis unfolding unfold using True by (simp add: f'_def)
      next
        case nz: False
        with False le have "int (length d) = ?n" by simp
        then have "nat ?n - length d = 0" by simp
        with split have "take (nat ?n) ?rest = d" by simp
        then show ?thesis unfolding unfold using False nz by (simp add: f'_def)
      qed
    qed
  qed
qed

lemma getDigest_reads:
  "reads_left f = None \<Longrightarrow>
   getDigest pf f n =
     (digest pf (take (nat n) (drop (file_pos f) (bytes f))),
      f\<lparr>file_pos := file_pos f + length (take (nat n) (drop (file_pos f) (bytes f)))\<rparr>)"
  by (simp add: getDigest_def getDigest_loop_reads IndexingBlockSize_def)

text \<open>
  C1: when no read fails and the tail offset is a file offset (not negative),
  \<open>doCheckFileChanges\<close> returns \<open>Truncated\<close> if the size of the file is 0 or smaller
  than the indexed size, or the file cannot be opened, or a digest comparison fails (on
  the fast path, taken exactly when the fast modification detection is enabled and
  the indexed size exceeds two indexing blocks, the header digest and then the tail
  digest; otherwise the full digest); otherwise \<open>DataAdded\<close> if the file is larger than
  the indexed size, and \<open>Unchanged\<close> if the sizes are equal.
\<close>

theorem check_file_changes_status:
  assumes "read_error_after env = None" and "0 \<le> tailOffset (getHash d)"
  shows "doCheckFileChanges pf config env d = spec_check_file_changes pf config env (getHash d)"
proof (cases "openable env")
  case False
  then show ?thesis
    by (simp add: doCheckFileChanges_def spec_check_file_changes_def open_file_def Let_def)
next
  case True
  define fl where "fl = \<lparr>bytes = content env, file_pos = 0, reads_left = read_error_after env\<rparr>"
  have op: "open_file env = Some fl"
    using True by (simp add: open_file_def fl_def)
  have rl: "reads_left fl = None" using assms(1) by (simp add: fl_def)
  show ?thesis
    using assms(2) rl True
    by (auto simp: doCheckFileChanges_def spec_check_file_changes_def spec_digest_mismatch_def op
          getDigest_reads seek_def Let_def fl_def)
qed

theorem check_file_changes_status_witness:
  "read_error_after (plain_file file_S2) = None \<and> 0 \<le> tailOffset (getHash empty_data)
   \<and> doCheckFileChanges sample_platform sample_configuration
        (plain_file file_S2) empty_data = DataAdded"
proof -
  have h1: "read_error_after (plain_file file_S2) = None" by (simp add: plain_file_def)
  have h2: "0 \<le> tailOffset (getHash empty_data)" by (simp add: data_defs)
  have "spec_check_file_changes sample_platform sample_configuration
        (plain_file file_S2) (getHash empty_data) = DataAdded"
    by (simp add: spec_check_file_changes_def spec_digest_mismatch_def data_defs plain_file_def
          sample_configuration_def
          file_S2_def sample_defs sample_digest_def IndexingBlockSize_def)
  with check_file_changes_status [OF h1 h2] h1 h2 show ?thesis by simp
qed

section \<open>The tail window\<close>

text \<open>
  What one \<open>addAll\<close> of a non-empty block does to the tail window: the block is
  pushed, the oldest block is removed at most once, and the tail size and the tail
  offset are recomputed from the blocks that are kept. The sum stays within two
  indexing blocks when it was so before and the oldest block is at least as large as
  the added one.
\<close>

lemma addAll_tail_fields:
  assumes "block \<noteq> []"
    and "tailBlocks (getHash d) \<noteq> [] \<or> int (length block) \<le> 2 * IndexingBlockSize"
  shows "\<exists>d'. addAll pf block length' linePosition' encoding d = Some d'
     \<and> tailBlocks (getHash d') =
         (if blocks_size (map snd (tailBlocks (getHash d))) + int (length block)
               > 2 * IndexingBlockSize
          then tl (tailBlocks (getHash d) @ [(getIndexedSize d, block)])
          else tailBlocks (getHash d) @ [(getIndexedSize d, block)])
     \<and> tailBlocks (getHash d') \<noteq> []
     \<and> tailSize (getHash d') = blocks_size (map snd (tailBlocks (getHash d')))
     \<and> tailOffset (getHash d') = fst (hd (tailBlocks (getHash d')))
     \<and> (blocks_size (map snd (tailBlocks (getHash d))) \<le> 2 * IndexingBlockSize
          \<and> (\<forall>oldest \<in> set (take 1 (tailBlocks (getHash d))).
                length block \<le> length (snd oldest))
          \<longrightarrow> blocks_size (map snd (tailBlocks (getHash d'))) \<le> 2 * IndexingBlockSize)"
proof -
  define h where "h = indexedHash d"
  from add_block_tail [of h block pf "hashBuilder d @ block"] assms(2)
  obtain h' where h': "add_block pf block (hashBuilder d @ block) h = Some h'"
    and tb: "tailBlocks h' =
         (if blocks_size (map snd (tailBlocks h)) + int (length block) > 2 * IndexingBlockSize
          then tl (tailBlocks h @ [(hash_size h, block)])
          else tailBlocks h @ [(hash_size h, block)])"
    and ne: "tailBlocks h' \<noteq> []"
    and ts: "tailSize h' = blocks_size (map snd (tailBlocks h'))"
    and toff: "tailOffset h' = fst (hd (tailBlocks h'))"
    by (auto simp: h_def getHash_def)
  have bound: "blocks_size (map snd (tailBlocks h')) \<le> 2 * IndexingBlockSize"
    if "blocks_size (map snd (tailBlocks h)) \<le> 2 * IndexingBlockSize"
      and "\<forall>oldest \<in> set (take 1 (tailBlocks h)). length block \<le> length (snd oldest)"
  proof (cases "tailBlocks h")
    case Nil
    with tb ne show ?thesis by (auto simp: blocks_size_simps split: if_splits)
  next
    case (Cons front rest)
    with that tb show ?thesis by (auto simp: blocks_size_simps split: if_splits)
  qed
  have run: "addAll pf block length' linePosition' encoding d =
     Some (d\<lparr>maxLength := max (maxLength d) length',
              linePosition := append_list linePosition' (linePosition d),
              hashBuilder := hashBuilder d @ block, indexedHash := h',
              dataEncodingGuess := encoding\<rparr>)"
    using assms(1) h' by (simp add: addAll_def h_def Let_def)
  show ?thesis
    unfolding run using tb ne ts toff bound
    by (simp add: getHash_def getIndexedSize_def h_def)
qed

text \<open>
  C3: \<open>addAll\<close> compares the sum of the tail with \<open>2 * IndexingBlockSize\<close>, the bound
  of the specification, and removes the oldest block once, with an \<open>if\<close> where the
  bound needs a loop. After two blocks of one byte and two full blocks the tail keeps
  the blocks of 1 byte, 1 MiB and 1 MiB: the removal took place (the tail starts at
  offset 1) and the sum is one byte over the bound. After three blocks of one byte and
  four full blocks the tail keeps the four full blocks, twice the bound: each full
  block removed one byte. The tail size and the tail offset agree with the blocks
  kept.
\<close>

theorem tail_window_overflow:
  "map_option (\<lambda>d. (map (\<lambda>b. int (length (snd b))) (tailBlocks (getHash d)),
                     blocks_size (map snd (tailBlocks (getHash d))),
                     tailSize (getHash d), tailOffset (getHash d)))
     (addAll_seq sample_platform
        [add_call [CHR ''a''], add_call [CHR ''b''], add_call full_block, add_call full_block]
        empty_data)
     = Some ([1, IndexingBlockSize, IndexingBlockSize],
             2 * IndexingBlockSize + 1, 2 * IndexingBlockSize + 1, 1)
   \<and> 2 * IndexingBlockSize + 1 > 2 * IndexingBlockSize
   \<and> map_option (\<lambda>d. (map (\<lambda>b. int (length (snd b))) (tailBlocks (getHash d)),
                       blocks_size (map snd (tailBlocks (getHash d))),
                       tailSize (getHash d), tailOffset (getHash d)))
     (addAll_seq sample_platform
        [add_call [CHR ''a''], add_call [CHR ''b''], add_call [CHR ''c''],
         add_call full_block, add_call full_block, add_call full_block, add_call full_block]
        empty_data)
     = Some ([IndexingBlockSize, IndexingBlockSize, IndexingBlockSize, IndexingBlockSize],
             4 * IndexingBlockSize, 4 * IndexingBlockSize, 3)"
  by (simp add: add_call_def addAll_def add_block_def blocks_size_simps length_full_block
        full_block_not_empty IndexingBlockSize_def empty_data_def empty_hash_def empty_array_def
        append_list_def getHash_def Let_def)

section \<open>The header window\<close>

text \<open>
  C4, as the specification states it: the header size never exceeds one indexing
  block. A block is added whole while the header size is below one indexing block:
  after a block of one byte and a full block the header size is one byte more.
\<close>

theorem header_bound_counterexample:
  "map_option (\<lambda>d. headerSize (getHash d))
     (addAll_seq sample_platform [add_call [CHR ''a''], add_call full_block] empty_data)
     = Some (IndexingBlockSize + 1)
   \<and> \<not> IndexingBlockSize + 1 \<le> IndexingBlockSize"
  by (simp add: add_call_def addAll_def add_block_def blocks_size_simps length_full_block
        full_block_not_empty IndexingBlockSize_def empty_data_def empty_hash_def empty_array_def
        append_list_def getHash_def Let_def)

lemma add_block_header:
  assumes "add_block pf block builder h = Some h'"
  shows "(if headerSize h < IndexingBlockSize
          then headerBlocks h' = headerBlocks h @ [block]
             \<and> headerSize h' = headerSize h + int (length block)
             \<and> headerDigest h' = digest pf (concat (headerBlocks h @ [block]))
          else headerBlocks h' = headerBlocks h
             \<and> headerSize h' = headerSize h
             \<and> headerDigest h' = headerDigest h)"
  using assms
  by (auto simp: add_block_def Let_def split: list.splits if_splits)

lemma addAll_header:
  assumes "addAll pf block length' linePosition' encoding d = Some d'"
  shows "(if block \<noteq> [] \<and> headerSize (getHash d) < IndexingBlockSize
          then headerBlocks (getHash d') = headerBlocks (getHash d) @ [block]
             \<and> headerSize (getHash d') = headerSize (getHash d) + int (length block)
          else headerBlocks (getHash d') = headerBlocks (getHash d)
             \<and> headerSize (getHash d') = headerSize (getHash d)
             \<and> headerDigest (getHash d') = headerDigest (getHash d))"
proof (cases "block = []")
  case True
  with assms show ?thesis by (auto simp: addAll_def getHash_def Let_def)
next
  case False
  with assms obtain h' where
    h': "add_block pf block (hashBuilder d @ block) (indexedHash d) = Some h'"
    and d': "indexedHash d' = h'"
    by (auto simp: addAll_def Let_def split: option.splits)
  from add_block_header [OF h'] False d' show ?thesis
    by (auto simp: getHash_def split: if_splits)
qed

lemma addAll_header_ok:
  assumes "addAll pf block length' linePosition' encoding d = Some d'"
    and "header_ok (getHash d)"
  shows "header_ok (getHash d')"
  using addAll_header [OF assms(1)] assms(2)
  by (auto simp: header_ok_def blocks_size_simps split: if_splits)

lemma addAll_header_blocks:
  assumes "addAll pf block length' linePosition' encoding d = Some d'"
  shows "set (headerBlocks (getHash d')) \<subseteq> insert block (set (headerBlocks (getHash d)))"
  using addAll_header [OF assms] by (auto split: if_splits)

lemma addAll_seq_header_ok:
  "addAll_seq pf calls d = Some d' \<Longrightarrow> header_ok (getHash d) \<Longrightarrow> header_ok (getHash d')"
proof (induction calls arbitrary: d)
  case Nil
  then show ?case by simp
next
  case (Cons call calls)
  obtain block length' linePosition' encoding where call: "call = (block, length', linePosition', encoding)"
    by (cases call) auto
  from Cons.prems(1) call obtain d1 where
    d1: "addAll pf block length' linePosition' encoding d = Some d1"
    and rest: "addAll_seq pf calls d1 = Some d'"
    by (auto split: option.splits)
  from addAll_header_ok [OF d1 Cons.prems(2)] have "header_ok (getHash d1)" .
  with Cons.IH rest show ?case by blast
qed

lemma addAll_seq_header_blocks:
  "addAll_seq pf calls d = Some d' \<Longrightarrow>
   set (headerBlocks (getHash d')) \<subseteq> set (headerBlocks (getHash d)) \<union> fst ` set calls"
proof (induction calls arbitrary: d)
  case Nil
  then show ?case by simp
next
  case (Cons call calls)
  obtain block length' linePosition' encoding where call: "call = (block, length', linePosition', encoding)"
    by (cases call) auto
  from Cons.prems(1) call obtain d1 where
    d1: "addAll pf block length' linePosition' encoding d = Some d1"
    and rest: "addAll_seq pf calls d1 = Some d'"
    by (auto split: option.splits)
  from Cons.IH [OF rest] addAll_header_blocks [OF d1] call show ?case by auto
qed

text \<open>
  C4, amended: after every sequence of \<open>addAll\<close> calls on cleared indexing data, the
  header size is the total size of the header blocks; the last of them was added when
  the header size was below one indexing block, so the header size stays below two
  indexing blocks when no block is larger than one; and a further call adds its block
  (whole) exactly when it is not empty and the header size is below one indexing block:
  the header is never trimmed and does not change once it is filled.
\<close>

theorem header_window:
  assumes "addAll_seq pf calls empty_data = Some d"
  shows "headerSize (getHash d) = blocks_size (headerBlocks (getHash d))
     \<and> (headerBlocks (getHash d) = []
          \<or> headerSize (getHash d) - int (length (last (headerBlocks (getHash d))))
               < IndexingBlockSize)
     \<and> ((\<forall>call \<in> set calls. int (length (fst call)) \<le> IndexingBlockSize)
          \<longrightarrow> headerSize (getHash d) < 2 * IndexingBlockSize)
     \<and> (\<forall>block length' linePosition' encoding d'.
           addAll pf block length' linePosition' encoding d = Some d' \<longrightarrow>
             (if block \<noteq> [] \<and> headerSize (getHash d) < IndexingBlockSize
              then headerBlocks (getHash d') = headerBlocks (getHash d) @ [block]
                 \<and> headerSize (getHash d') = headerSize (getHash d) + int (length block)
              else headerBlocks (getHash d') = headerBlocks (getHash d)
                 \<and> headerSize (getHash d') = headerSize (getHash d)
                 \<and> headerDigest (getHash d') = headerDigest (getHash d)))"
proof -
  have "header_ok (getHash empty_data)"
    by (simp add: header_ok_def empty_data_def empty_hash_def getHash_def blocks_size_simps)
  from addAll_seq_header_ok [OF assms this]
  have ok: "header_ok (getHash d)" .
  have blocks: "set (headerBlocks (getHash d)) \<subseteq> fst ` set calls"
    using addAll_seq_header_blocks [OF assms]
    by (simp add: empty_data_def empty_hash_def getHash_def)
  have bound: "headerSize (getHash d) < 2 * IndexingBlockSize"
    if small: "\<forall>call \<in> set calls. int (length (fst call)) \<le> IndexingBlockSize"
  proof (cases "headerBlocks (getHash d) = []")
    case True
    with ok show ?thesis
      by (simp add: header_ok_def blocks_size_simps IndexingBlockSize_def)
  next
    case False
    then have "last (headerBlocks (getHash d)) \<in> set (headerBlocks (getHash d))" by simp
    with blocks have "last (headerBlocks (getHash d)) \<in> fst ` set calls" by blast
    with small have "int (length (last (headerBlocks (getHash d)))) \<le> IndexingBlockSize"
      by fastforce
    with ok False show ?thesis by (simp add: header_ok_def)
  qed
  from ok bound addAll_header show ?thesis
    unfolding header_ok_def by blast
qed

theorem header_window_witness:
  "addAll_seq sample_platform [add_call [CHR ''a''], add_call full_block] empty_data \<noteq> None
   \<and> (\<exists>d. addAll_seq sample_platform [add_call [CHR ''a''], add_call full_block] empty_data = Some d
          \<and> headerSize (getHash d) = blocks_size (headerBlocks (getHash d))
          \<and> headerSize (getHash d) < 2 * IndexingBlockSize)"
proof -
  have small: "\<forall>call \<in> set [add_call [CHR ''a''], add_call full_block].
      int (length (fst call)) \<le> IndexingBlockSize"
    by (simp add: add_call_def length_full_block IndexingBlockSize_def)
  obtain d where d: "addAll_seq sample_platform [add_call [CHR ''a''], add_call full_block] empty_data = Some d"
    by (simp add: add_call_def addAll_def add_block_def blocks_size_simps length_full_block
        full_block_not_empty IndexingBlockSize_def empty_data_def empty_hash_def empty_array_def
        append_list_def getHash_def Let_def)
  from header_window [OF d] small d show ?thesis by auto
qed


section \<open>Cancellation\<close>

lemma interruptRequest_later:
  "interruptRequest intr ClearCheck \<Longrightarrow> interruptRequest intr ResultCheck"
  by (cases "(intr, ClearCheck)" rule: interruptRequest.cases) auto

lemma interruptRequest_before_result:
  "c \<noteq> ResultCheck \<Longrightarrow> interruptRequest (Some c) ClearCheck"
  by (cases c) auto

lemma blockReader_late_interrupt:
  "blockReader (Some ResultCheck) k f = blockReader None k f"
proof (induction "None :: checkpoint option" k f rule: blockReader.induct)
  case (1 k f)
  show ?case
  proof (cases "atEnd f")
    case True
    then show ?thesis by (simp add: blockReader.simps)
  next
    case False
    obtain readBytes b f' where rd: "file_read f IndexingBlockSize = (readBytes, b, f')"
      by (cases "file_read f IndexingBlockSize") auto
    show ?thesis
    proof (cases "readBytes < 0")
      case True
      with False rd show ?thesis by (simp add: blockReader.simps)
    next
      case neg: False
      have ih: "blockReader (Some ResultCheck) (Suc k) f' = blockReader None (Suc k) f'"
        using False rd neg by (intro "1.hyps" [of readBytes "(b, f')" b f']) auto
      have l: "blockReader (Some ResultCheck) k f
                 = (int (file_pos f), b) # blockReader (Some ResultCheck) (Suc k) f'"
        using False rd neg by (subst blockReader.simps) simp
      have r: "blockReader None k f = (int (file_pos f), b) # blockReader None (Suc k) f'"
        using False rd neg by (subst blockReader.simps) simp
      show ?thesis unfolding l r ih ..
    qed
  qed
qed

lemma finish_index_late_interrupt:
  "finish_index pf (Some ResultCheck) st d = finish_index pf None st d"
  by (simp add: finish_index_def Let_def split: option.splits)

lemma doIndex_late_interrupt:
  assumes "interrupt env = Some ResultCheck"
  shows "doIndex pf env p d = doIndex pf (env\<lparr>interrupt := None\<rparr>) p d"
proof -
  have e: "interrupt (env\<lparr>interrupt := None\<rparr>) = None" by simp
  show ?thesis
    unfolding doIndex_def assms e blockReader_late_interrupt finish_index_late_interrupt
    by (simp add: open_file_def)
qed

text \<open>
  C5, as the specification states it: an interrupt set during a full index leaves no
  line and the indexed size 0. When the flag is set after \<open>doIndex\<close> has read it for
  the last time and before \<open>run\<close> reads it for the result, the index of \<open>"a\nbb"\<close> is
  kept, with two lines and the indexed size 4, and the operation finishes with
  \<open>indexingFinished(false)\<close>.
\<close>

theorem interrupt_race_counterexample:
  "map_option (\<lambda>(d, sigs, r). (getNbLines d, getIndexedSize d, last sigs, r))
     (FullIndexOperation_run sample_platform (interrupted_file file_S2 ResultCheck) None empty_data)
     = Some (2, 4, indexingFinished False, False)"
  by (simp add: index_defs file_defs data_defs scan_defs conversion_defs sample_defs
        interrupted_file_def file_S2_def getNbLines_def Let_def)

text \<open>
  C5, amended: when the interrupt is set during a full index and \<open>doIndex\<close> sees the flag
  at its check after the graph has finished (every interrupt but the last one, which
  only \<open>run\<close> sees), the indexing data are cleared: no line, indexed size 0, only the
  encoding guess is set again, to the codec of the locale; the operation finishes with
  \<open>indexingFinished(false)\<close>, Interrupted. When only \<open>run\<close> sees the flag, the operation
  finishes with Interrupted as well and the data are those of the run without
  interrupt. The operation returns, with the result Interrupted, on every file in
  which no line has two tabs.
\<close>

theorem interrupt_clears:
  assumes "interrupt env = Some c"
  shows "(c \<noteq> ResultCheck \<and> FullIndexOperation_run pf env forced d = Some (d', sigs, r)
          \<longrightarrow> getNbLines d' = 0 \<and> getIndexedSize d' = 0 \<and> r = False
            \<and> last sigs = indexingFinished False
            \<and> d' = setEncodingGuess (Some (codecForLocale pf)) empty_data)
       \<and> (c = ResultCheck
          \<longrightarrow> FullIndexOperation_run pf env forced d
              = map_option (\<lambda>(d', sigs, r). (d', butlast sigs @ [indexingFinished False], False))
                  (FullIndexOperation_run pf (env\<lparr>interrupt := None\<rparr>) forced d))
       \<and> (well_formed_platform pf \<and> tabs_apart (content env)
          \<longrightarrow> (\<exists>d' sigs'. FullIndexOperation_run pf env forced d = Some (d', sigs', False)
                 \<and> last sigs' = indexingFinished False))"
proof (intro conjI)
  have res: "interruptRequest (interrupt env) ResultCheck"
    using assms by (cases c) simp_all
  have finished: "r = False \<and> last sigs = indexingFinished False"
    if "FullIndexOperation_run pf env forced d = Some (d', sigs, r)" for d' sigs r
    using that res
    by (auto simp: FullIndexOperation_run_def Let_def split: option.splits prod.splits)
  show "c \<noteq> ResultCheck \<and> FullIndexOperation_run pf env forced d = Some (d', sigs, r)
          \<longrightarrow> getNbLines d' = 0 \<and> getIndexedSize d' = 0 \<and> r = False
            \<and> last sigs = indexingFinished False
            \<and> d' = setEncodingGuess (Some (codecForLocale pf)) empty_data"
  proof
    assume a: "c \<noteq> ResultCheck \<and> FullIndexOperation_run pf env forced d = Some (d', sigs, r)"
    then have clr: "interruptRequest (interrupt env) ClearCheck"
      using assms by (simp add: interruptRequest_before_result)
    have "d' = setEncodingGuess (Some (codecForLocale pf)) empty_data"
      using clr a
      by (auto simp: FullIndexOperation_run_def doIndex_def finish_index_def clear_def
            empty_data_def setEncodingGuess_def getEncodingGuess_def Let_def
            split: option.splits prod.splits if_splits)
    with finished [of d' sigs r] a
    show "getNbLines d' = 0 \<and> getIndexedSize d' = 0 \<and> r = False
            \<and> last sigs = indexingFinished False
            \<and> d' = setEncodingGuess (Some (codecForLocale pf)) empty_data"
      by (simp add: getNbLines_def data_defs)
  qed
  show "c = ResultCheck
          \<longrightarrow> FullIndexOperation_run pf env forced d
              = map_option (\<lambda>(d', sigs, r). (d', butlast sigs @ [indexingFinished False], False))
                  (FullIndexOperation_run pf (env\<lparr>interrupt := None\<rparr>) forced d)"
  proof
    assume "c = ResultCheck"
    with assms have late: "interrupt env = Some ResultCheck" by simp
    show "FullIndexOperation_run pf env forced d
              = map_option (\<lambda>(d', sigs, r). (d', butlast sigs @ [indexingFinished False], False))
                  (FullIndexOperation_run pf (env\<lparr>interrupt := None\<rparr>) forced d)"
      unfolding FullIndexOperation_run_def doIndex_late_interrupt [OF late]
      by (simp add: late Let_def butlast_append split: option.splits)
  qed
  show "well_formed_platform pf \<and> tabs_apart (content env)
          \<longrightarrow> (\<exists>d' sigs'. FullIndexOperation_run pf env forced d = Some (d', sigs', False)
                 \<and> last sigs' = indexingFinished False)"
  proof
    assume "well_formed_platform pf \<and> tabs_apart (content env)"
    with index_defined(1) [of pf env forced d]
    obtain d1 s1 r1 where run: "FullIndexOperation_run pf env forced d = Some (d1, s1, r1)"
      by auto
    from finished [OF run] run
    show "\<exists>d' sigs'. FullIndexOperation_run pf env forced d = Some (d', sigs', False)
                 \<and> last sigs' = indexingFinished False"
      by auto
  qed
qed

theorem interrupt_clears_witness:
  "interrupt (interrupted_file file_S2 ClearCheck) = Some ClearCheck
   \<and> ClearCheck \<noteq> ResultCheck
   \<and> well_formed_platform sample_platform
   \<and> tabs_apart (content (interrupted_file file_S2 ClearCheck))
   \<and> (\<exists>sigs. FullIndexOperation_run sample_platform (interrupted_file file_S2 ClearCheck) None
                 empty_data
                = Some (setEncodingGuess (Some (codecForLocale sample_platform)) empty_data,
                        sigs, False)
              \<and> last sigs = indexingFinished False)
   \<and> getNbLines (setEncodingGuess (Some (codecForLocale sample_platform)) empty_data) = 0
   \<and> getIndexedSize (setEncodingGuess (Some (codecForLocale sample_platform)) empty_data) = 0
   \<and> interrupt (interrupted_file file_S2 ResultCheck) = Some ResultCheck
   \<and> FullIndexOperation_run sample_platform (interrupted_file file_S2 ResultCheck) None empty_data
       = map_option (\<lambda>(d', sigs, r). (d', butlast sigs @ [indexingFinished False], False))
           (FullIndexOperation_run sample_platform
              ((interrupted_file file_S2 ResultCheck)\<lparr>interrupt := None\<rparr>) None empty_data)"
proof -
  have h: "interrupt (interrupted_file file_S2 ClearCheck) = Some ClearCheck"
    by (simp add: interrupted_file_def)
  have h': "interrupt (interrupted_file file_S2 ResultCheck) = Some ResultCheck"
    by (simp add: interrupted_file_def)
  have t: "tabs_apart (content (interrupted_file file_S2 ClearCheck))"
    using file_S2_tabs_apart by (simp add: interrupted_file_def)
  have n: "getNbLines (setEncodingGuess (Some (codecForLocale sample_platform)) empty_data) = 0"
    "getIndexedSize (setEncodingGuess (Some (codecForLocale sample_platform)) empty_data) = 0"
    by (simp_all add: getNbLines_def data_defs)
  note early = interrupt_clears [OF h, of sample_platform None empty_data]
  note late = interrupt_clears [OF h', of sample_platform None empty_data]
  from early t sample_platform_well_formed obtain d1 s1 where
    run: "FullIndexOperation_run sample_platform (interrupted_file file_S2 ClearCheck) None
            empty_data = Some (d1, s1, False)"
    and fin: "last s1 = indexingFinished False"
    by blast
  from early [of d1 s1 False] run
  have "d1 = setEncodingGuess (Some (codecForLocale sample_platform)) empty_data" by simp
  with run fin h h' t n sample_platform_well_formed late show ?thesis by blast
qed

section \<open>A file that cannot be opened\<close>

text \<open>
  C8, as the specification states it: an indexing operation on a file that cannot be
  opened terminates with Successful. When the interrupt is requested before \<open>run\<close>
  reads the flag for its result, the operation emits \<open>indexingFinished(false)\<close>:
  Interrupted.
\<close>

theorem open_failure_counterexample:
  "FullIndexOperation_run sample_platform (unopenable_file file_S2 (Some ResultCheck)) None empty_data
     = Some (setEncodingGuess (Some (codecForLocale sample_platform)) empty_data,
             [indexingProgressed 0, indexingProgressed 100, indexingFinished False], False)"
  by (simp add: FullIndexOperation_run_def doIndex_def open_file_def unopenable_file_def data_defs)

text \<open>
  C8, amended: if the file cannot be opened for reading, a full and a partial index
  clear the index, set the encoding guess to the codec of the locale, emit
  \<open>progress(100)\<close> and finish with Successful unless the interrupt was requested, in
  which case they finish with Interrupted; \<open>doCheckFileChanges\<close> returns \<open>Truncated\<close>.
\<close>

theorem open_failure:
  assumes "\<not> openable env"
  shows "FullIndexOperation_run pf env forced d
           = Some (setEncodingGuess (Some (codecForLocale pf)) empty_data,
                   [indexingProgressed 0, indexingProgressed 100,
                    indexingFinished (\<not> interruptRequest (interrupt env) ResultCheck)],
                   \<not> interruptRequest (interrupt env) ResultCheck)
       \<and> PartialIndexOperation_run pf env d
           = Some (setEncodingGuess (Some (codecForLocale pf)) empty_data,
                   [indexingProgressed 0, indexingProgressed 100,
                    indexingFinished (\<not> interruptRequest (interrupt env) ResultCheck)],
                   \<not> interruptRequest (interrupt env) ResultCheck)
       \<and> getNbLines (setEncodingGuess (Some (codecForLocale pf)) empty_data) = 0
       \<and> getIndexedSize (setEncodingGuess (Some (codecForLocale pf)) empty_data) = 0
       \<and> getEncodingGuess (setEncodingGuess (Some (codecForLocale pf)) empty_data)
           = Some (codecForLocale pf)
       \<and> doCheckFileChanges pf config env d = Truncated"
  using assms
  by (simp add: FullIndexOperation_run_def PartialIndexOperation_run_def doIndex_def open_file_def
        doCheckFileChanges_def data_defs getNbLines_def Let_def)

theorem open_failure_witness:
  "\<not> openable (unopenable_file file_S2 None)
   \<and> FullIndexOperation_run sample_platform (unopenable_file file_S2 None) None empty_data
       = Some (setEncodingGuess (Some (codecForLocale sample_platform)) empty_data,
               [indexingProgressed 0, indexingProgressed 100, indexingFinished True], True)
   \<and> doCheckFileChanges sample_platform sample_configuration (unopenable_file file_S2 None) empty_data
       = Truncated"
proof -
  have h: "\<not> openable (unopenable_file file_S2 None)" by (simp add: unopenable_file_def)
  from open_failure [OF h, of sample_platform None empty_data sample_configuration] h
  show ?thesis by (simp add: unopenable_file_def)
qed


section \<open>Tab expansion and line lengths\<close>

text \<open>
  C6, as the specification states it: for the file \<open>"x\ty\n"\<close> the display length of
  line 0 and the maximal length are 8. The code counts the three bytes before the line
  feed and the 6 additional columns of the tab: the maximal length is 9.
\<close>

theorem tab_line_length_counterexample:
  "map_option (\<lambda>(d, sigs, r). maxLength d)
     (FullIndexOperation_run sample_platform (plain_file file_S3) None empty_data) = Some 9
   \<and> map_option (\<lambda>(d, sigs, r). maxLength d)
     (FullIndexOperation_run sample_platform (plain_file file_S3) None empty_data) \<noteq> Some 8"
  by (simp add: index_defs file_defs data_defs scan_defs conversion_defs sample_defs
        file_S3_def Let_def)

text \<open>
  C6, amended: for the file \<open>"x\ty\n"\<close>, read with a line feed of one byte, the tab at
  column 1 adds \<open>TabStop - (1 mod TabStop) - 1 = 6\<close> columns, the length of line 0 is
  \<open>(end - pos) + additional_spaces = 3 + 6 = 9\<close>, and a full index ends with the maximal
  length 9 and the single line position 4.
\<close>

theorem tab_line_length:
  assumes "encodingParameters pf (detectEncoding pf file_S3) = single_byte"
  shows "expandTabs single_byte 0 file_S3 0 0 3 0 = Some (TabStop - cpp_rem 1 TabStop - 1)
    \<and> TabStop - cpp_rem 1 TabStop - 1 = 6
    \<and> (\<exists>d' sigs. FullIndexOperation_run pf (plain_file file_S3) None d = Some (d', sigs, True)
          \<and> getMaxLength d' = (3 - 0) + 6
          \<and> array (linePosition d') = [4])"
proof -
  have tabs: "expandTabs single_byte 0 file_S3 0 0 3 0 = Some (TabStop - cpp_rem 1 TabStop - 1)"
    by (simp add: scan_defs conversion_defs single_byte_def file_S3_def Let_def)
  have six: "TabStop - cpp_rem 1 TabStop - 1 = 6"
    by (simp add: conversion_defs)
  have run: "\<exists>d' sigs. FullIndexOperation_run pf (plain_file file_S3) None d = Some (d', sigs, True)
          \<and> getMaxLength d' = (3 - 0) + 6
          \<and> array (linePosition d') = [4]"
    using assms
    by (simp add: index_defs file_defs data_defs scan_defs conversion_defs single_byte_def
          getMaxLength_def file_S3_def Let_def)
  from tabs six run show ?thesis by blast
qed

theorem tab_line_length_witness:
  "encodingParameters sample_platform (detectEncoding sample_platform file_S3) = single_byte
   \<and> (\<exists>d' sigs. FullIndexOperation_run sample_platform (plain_file file_S3) None empty_data
                   = Some (d', sigs, True)
          \<and> getMaxLength d' = 9)"
proof -
  have h: "encodingParameters sample_platform (detectEncoding sample_platform file_S3) = single_byte"
    by (simp add: sample_defs)
  from tab_line_length [OF h, of empty_data] h show ?thesis by auto
qed

section \<open>The change check leaves the indexing data alone\<close>

text \<open>
  C10: \<open>CheckFileChangesOperation::run\<close> reads the indexing data through a
  \<open>ConstAccessor\<close> only. The data after the operation are the data before it: the line
  positions, the maximal length, the fingerprints, the encoding guess and the forced
  encoding are unchanged.
\<close>

theorem check_file_changes_frame:
  "fst (CheckFileChangesOperation_run pf config env d) = d
   \<and> linePosition (fst (CheckFileChangesOperation_run pf config env d)) = linePosition d
   \<and> getMaxLength (fst (CheckFileChangesOperation_run pf config env d)) = getMaxLength d
   \<and> getHash (fst (CheckFileChangesOperation_run pf config env d)) = getHash d
   \<and> getEncodingGuess (fst (CheckFileChangesOperation_run pf config env d)) = getEncodingGuess d
   \<and> getForcedEncoding (fst (CheckFileChangesOperation_run pf config env d)) = getForcedEncoding d
   \<and> snd (CheckFileChangesOperation_run pf config env d)
       = ([fileCheckFinished (doCheckFileChanges pf config env d)], doCheckFileChanges pf config env d)"
  by (simp add: CheckFileChangesOperation_run_def Let_def)

theorem check_file_changes_frame_witness:
  "fst (CheckFileChangesOperation_run sample_platform sample_configuration (plain_file file_S2) empty_data)
     = empty_data"
  using check_file_changes_frame [of sample_platform sample_configuration "plain_file file_S2" empty_data]
  by simp


end
